theory Spec2Isabelle
  imports Complex_Main "HOL-Library.Sublist" "HOL-Library.Code_Target_Nat"
begin

section \<open>JavaScript strings\<close>

text \<open>
  A JavaScript string is a sequence of UTF-16 code units.  A code unit is modelled by its
  number, a string by the list of its code units; \<open>length\<close> is then the \<open>.length\<close> of
  the source.  An ASCII literal of the source is written \<open>js ''...''\<close>.
\<close>

type_synonym jschar = nat
type_synonym jsstring = "jschar list"

definition js :: "string \<Rightarrow> jsstring" where
  "js s = map of_char s"

abbreviation (input) NL :: jschar where "NL \<equiv> 10"
abbreviation (input) CR :: jschar where "CR \<equiv> 13"
abbreviation (input) TAB :: jschar where "TAB \<equiv> 9"
abbreviation (input) SP :: jschar where "SP \<equiv> 32"
abbreviation (input) NBSP :: jschar where "NBSP \<equiv> 160"

text \<open>
  The class \<open>\s\<close> of a regular expression, which is also what \<open>trim()\<close> strips: the
  WhiteSpace and LineTerminator code points of ECMAScript (TAB, LF, VT, FF, CR, SP, NBSP,
  U+1680, U+2000..U+200A, U+2028, U+2029, U+202F, U+205F, U+3000, U+FEFF).
\<close>

definition isSpace :: "jschar \<Rightarrow> bool" where
  "isSpace c \<longleftrightarrow>
     (9 \<le> c \<and> c \<le> 13) \<or> c = 32 \<or> c = 160 \<or> c = 5760 \<or> (8192 \<le> c \<and> c \<le> 8202) \<or>
     c = 8232 \<or> c = 8233 \<or> c = 8239 \<or> c = 8287 \<or> c = 12288 \<or> c = 65279"

text \<open>The line terminators, which \<open>.\<close> does not match: LF, CR, U+2028, U+2029.\<close>

definition isLineTerminator :: "jschar \<Rightarrow> bool" where
  "isLineTerminator c \<longleftrightarrow> c = 10 \<or> c = 13 \<or> c = 8232 \<or> c = 8233"

definition trim :: "jsstring \<Rightarrow> jsstring" where
  "trim s = rev (dropWhile isSpace (rev (dropWhile isSpace s)))"

text \<open>
  \<open>s.replace(/C{k,}/g, r)\<close> for a character class \<open>C\<close>: the matches of a greedy
  repetition of one class are the maximal runs of \<open>C\<close> of length at least \<open>k\<close>
  (a shorter run matches at none of its positions), and each is replaced by \<open>r\<close>.
\<close>

function replaceRuns :: "(jschar \<Rightarrow> bool) \<Rightarrow> nat \<Rightarrow> jsstring \<Rightarrow> jsstring \<Rightarrow> jsstring" where
  "replaceRuns C k r [] = []"
| "replaceRuns C k r (c # cs) =
     (if C c then
        (if k \<le> Suc (length (takeWhile C cs)) then r else c # takeWhile C cs)
          @ replaceRuns C k r (dropWhile C cs)
      else c # replaceRuns C k r cs)"
  by pat_completeness auto
termination
  by (relation "measure (\<lambda>(C, k, r, s). length s)")
     (auto simp: length_dropWhile_le less_Suc_eq_le)

text \<open>
  \<open>s.split(/C{k,}/)\<close>: the separators are the maximal runs of \<open>C\<close> of length at least
  \<open>k\<close>; a separator at either end leaves an empty piece there, and a string without a
  separator is its own single piece.  \<open>cur\<close> is the piece being read.
\<close>

function splitRuns :: "(jschar \<Rightarrow> bool) \<Rightarrow> nat \<Rightarrow> jsstring \<Rightarrow> jsstring \<Rightarrow> jsstring list" where
  "splitRuns C k cur [] = [cur]"
| "splitRuns C k cur (c # cs) =
     (if C c then
        (if k \<le> Suc (length (takeWhile C cs))
         then cur # splitRuns C k [] (dropWhile C cs)
         else splitRuns C k (cur @ c # takeWhile C cs) (dropWhile C cs))
      else splitRuns C k (cur @ [c]) cs)"
  by pat_completeness auto
termination
  by (relation "measure (\<lambda>(C, k, cur, s). length s)")
     (auto simp: length_dropWhile_le less_Suc_eq_le)

text \<open>\<open>s.split(sep)\<close> for a separator that is one character of the class \<open>C\<close>.\<close>

fun splitEach :: "(jschar \<Rightarrow> bool) \<Rightarrow> jsstring \<Rightarrow> jsstring \<Rightarrow> jsstring list" where
  "splitEach C cur [] = [cur]"
| "splitEach C cur (c # cs) =
     (if C c then cur # splitEach C [] cs else splitEach C (cur @ [c]) cs)"

text \<open>\<open>xs.join(sep)\<close>.\<close>

fun join :: "jsstring \<Rightarrow> jsstring list \<Rightarrow> jsstring" where
  "join sep [] = []"
| "join sep [x] = x"
| "join sep (x # y # ys) = x @ sep @ join sep (y # ys)"

section \<open>normalizeText\<close>

text \<open>
  \<^verbatim>\<open>
  text.replace(/\r/g, "").replace(/\t/g, " ").replace(/[ \u00A0]+/g, " ")
      .replace(/\n{3,}/g, "\n\n").trim()
  \<close>
\<close>

definition isBlank :: "jschar \<Rightarrow> bool" where
  "isBlank c \<longleftrightarrow> c = SP \<or> c = NBSP"

definition stripCR :: "jsstring \<Rightarrow> jsstring" where
  "stripCR s = filter (\<lambda>c. c \<noteq> CR) s"

definition tabsToSpaces :: "jsstring \<Rightarrow> jsstring" where
  "tabsToSpaces s = map (\<lambda>c. if c = TAB then SP else c) s"

definition collapseBlanks :: "jsstring \<Rightarrow> jsstring" where
  "collapseBlanks s = replaceRuns isBlank 1 [SP] s"

definition collapseNewlines :: "jsstring \<Rightarrow> jsstring" where
  "collapseNewlines s = replaceRuns (\<lambda>c. c = NL) 3 [NL, NL] s"

definition normalizeText :: "jsstring \<Rightarrow> jsstring" where
  "normalizeText text = trim (collapseNewlines (collapseBlanks (tabsToSpaces (stripCR text))))"

section \<open>Arrays and numbers\<close>

text \<open>
  \<open>xs.slice(a, b)\<close> for integers \<open>a\<close> and \<open>b\<close>: a negative index counts from the end,
  both ends are clamped to the array, and an empty range gives the empty array.
\<close>

definition slice :: "'a list \<Rightarrow> int \<Rightarrow> int \<Rightarrow> 'a list" where
  "slice xs a b =
     (let n = int (length xs);
          lo = (if a < 0 then max (n + a) 0 else min a n);
          hi = (if b < 0 then max (n + b) 0 else min b n)
      in take (nat (hi - lo)) (drop (nat lo) xs))"

text \<open>
  \<open>Array.from(new Set(xs))\<close>: the distinct elements in the order of their first
  occurrence (strings are compared by value).
\<close>

definition uniq :: "'a list \<Rightarrow> 'a list" where
  "uniq xs = rev (remdups (rev xs))"

text \<open>
  The result of \<open>Number.parseInt(val, 10)\<close> on a command-line value: an integer, or
  \<open>NaN\<close> when the value does not start with a number.
\<close>

datatype jsnum = Num int | NaN

text \<open>
  \<open>Math.ceil(a / b)\<close> for integers \<open>a\<close> and \<open>b \<noteq> 0\<close>.  The quotient of two array-sized
  integers is either an integer or at least \<open>1 / \<bar>b\<bar>\<close> away from one, far more than the
  rounding error of the double division, so the result is the exact ceiling.
\<close>

definition ceilDiv :: "int \<Rightarrow> int \<Rightarrow> int" where
  "ceilDiv a b = - ((- a) div b)"

text \<open>
  \<open>Math.round(q)\<close> rounds to the nearest integer, a tie towards \<open>+\<infinity>\<close>.  A JavaScript
  number that the program computes as a quotient of small integers is modelled by the
  rational it stands for.
\<close>

definition jsRound :: "rat \<Rightarrow> int" where
  "jsRound q = \<lfloor>q + 1 / 2\<rfloor>"

section \<open>splitSemanticBlocks\<close>

text \<open>\<open>x.replace(/\s+/g, "").length\<close>\<close>

definition nonSpaceLength :: "jsstring \<Rightarrow> nat" where
  "nonSpaceLength x = length (replaceRuns isSpace 1 [] x)"

text \<open>
  \<^verbatim>\<open>
  text.split(/\n\n+/).map((x) => x.trim()).filter(Boolean)
      .filter((x) => x.replace(/\s+/g, "").length >= 40)
  \<close>
\<close>

definition splitSemanticBlocks :: "jsstring \<Rightarrow> jsstring list" where
  "splitSemanticBlocks text =
     filter (\<lambda>x. 40 \<le> nonSpaceLength x)
       (filter (\<lambda>x. x \<noteq> []) (map trim (splitRuns (\<lambda>c. c = NL) 2 [] text)))"

section \<open>chunkBlocks\<close>

text \<open>\<open>block.split(/\s+/).filter(Boolean).length\<close>\<close>

definition wordCount :: "jsstring \<Rightarrow> nat" where
  "wordCount block = length (filter (\<lambda>w. w \<noteq> []) (splitRuns isSpace 1 [] block))"

abbreviation (input) targetMinWords :: nat where "targetMinWords \<equiv> 140"
abbreviation (input) targetMaxWords :: nat where "targetMaxWords \<equiv> 280"

text \<open>
  The first loop of \<open>chunkBlocks\<close> with its state \<open>chunks\<close>, \<open>current\<close>,
  \<open>currentWords\<close>, and the flush of \<open>current\<close> that follows the loop.
\<close>

fun packBlocks :: "jsstring list \<Rightarrow> jsstring list \<Rightarrow> nat \<Rightarrow> jsstring list \<Rightarrow> jsstring list" where
  "packBlocks chunks current currentWords [] =
     (if length current > 0 then chunks @ [join [NL, NL] current] else chunks)"
| "packBlocks chunks current currentWords (block # blocks) =
     (let words = wordCount block in
      if length current > 0 \<and>
         (currentWords + words > targetMaxWords \<or> currentWords \<ge> targetMinWords)
      then packBlocks (chunks @ [join [NL, NL] current]) [block] words blocks
      else packBlocks chunks (current @ [block]) (currentWords + words) blocks)"

text \<open>
  The second loop, \<open>for (let i = 0; i < chunks.length; i += ratio)\<close>.  Nothing in the
  source keeps \<open>ratio\<close> positive, so the loop is a partial function: \<open>None\<close> is the loop
  whose condition never fails.  Such a loop goes on adding to \<open>reduced\<close> until the engine
  can grow the array no more and ends the program with a \<open>RangeError\<close>.
\<close>

partial_function (option) reduceLoop ::
  "jsstring list \<Rightarrow> int \<Rightarrow> int \<Rightarrow> jsstring list \<Rightarrow> jsstring list option" where
  "reduceLoop chunks ratio i reduced =
     (if i < int (length chunks)
      then reduceLoop chunks ratio (i + ratio)
             (reduced @ [join [NL, NL] (slice chunks i (i + ratio))])
      else Some reduced)"

declare reduceLoop.simps [code]

text \<open>
  \<open>chunkBlocks(blocks, maxChunks)\<close> for an integer \<open>maxChunks\<close>.  For \<open>maxChunks = 0\<close>
  and at least one chunk, \<open>ratio\<close> is \<open>Math.ceil(n / 0) = Infinity\<close>: the loop runs once,
  joins all the chunks into one, and \<open>reduced.slice(0, 0)\<close> is empty.
\<close>

definition chunkBlocks :: "jsstring list \<Rightarrow> int \<Rightarrow> jsstring list option" where
  "chunkBlocks blocks maxChunks =
     (let chunks = packBlocks [] [] 0 blocks in
      if int (length chunks) \<le> maxChunks then Some chunks
      else if maxChunks = 0 then Some (slice [join [NL, NL] chunks] 0 0)
      else
        (let ratio = ceilDiv (int (length chunks)) maxChunks in
         case reduceLoop chunks ratio 0 [] of
           None \<Rightarrow> None
         | Some reduced \<Rightarrow> Some (slice reduced 0 maxChunks)))"

section \<open>detectLanguage and tokenize\<close>

datatype lang = Auto | Zh | En

text \<open>The classes \<open>[\u4e00-\u9fa5]\<close>, \<open>[A-Za-z]\<close> and \<open>[a-z0-9]\<close>.\<close>

definition isCjk :: "jschar \<Rightarrow> bool" where
  "isCjk c \<longleftrightarrow> 19968 \<le> c \<and> c \<le> 40869"

definition isLatinLetter :: "jschar \<Rightarrow> bool" where
  "isLatinLetter c \<longleftrightarrow> (65 \<le> c \<and> c \<le> 90) \<or> (97 \<le> c \<and> c \<le> 122)"

definition isDigit :: "jschar \<Rightarrow> bool" where
  "isDigit c \<longleftrightarrow> 48 \<le> c \<and> c \<le> 57"

definition isLowerAlnum :: "jschar \<Rightarrow> bool" where
  "isLowerAlnum c \<longleftrightarrow> (97 \<le> c \<and> c \<le> 122) \<or> isDigit c"

definition detectLanguage :: "jsstring \<Rightarrow> lang" where
  "detectLanguage text =
     (let zhCount = length (filter isCjk text);
          enCount = length (filter isLatinLetter text)
      in if zhCount = 0 \<and> enCount = 0 then Auto
         else if zhCount \<ge> enCount then Zh else En)"

definition STOPWORDS :: "jsstring list" where
  "STOPWORDS =
   [js ''the'', js ''and'', js ''for'', js ''with'', js ''this'', js ''that'', js ''from'',
    js ''into'', js ''your'', js ''when'', js ''where'', js ''what'', js ''which'',
    js ''will'', js ''are'', js ''is'', js ''to'', js ''of'', js ''on'', js ''in'', js ''by'',
    js ''or'', js ''as'', js ''an'', js ''a'', js ''be'', js ''at'', js ''it'', js ''if'',
    js ''else'', js ''then'', [25105, 20204], [20320, 20204], [20182, 20204], [21487, 20197],
    [38656, 35201], [36827, 34892], [20197, 21450], [36890, 36807], [19968, 20010],
    [19968, 31181], [36825, 20123], [37027, 20123], [20026, 20102], [30456, 20851],
    [20351, 29992], [26041, 27861], [27493, 39588], [35828, 26126], [20869, 23481],
    [22788, 29702], [31995, 32479], [27169, 22359], [32467, 26524], [29983, 25104],
    [20998, 26512], [25191, 34892], [25903, 25345], [21253, 25324]]"

definition STOPWORDS_EN :: "jsstring list" where
  "STOPWORDS_EN =
   [js ''the'', js ''and'', js ''for'', js ''with'', js ''this'', js ''that'', js ''from'',
    js ''into'', js ''your'', js ''when'', js ''where'', js ''what'', js ''which'',
    js ''will'', js ''are'', js ''is'', js ''to'', js ''of'', js ''on'', js ''in'', js ''by'',
    js ''or'', js ''as'', js ''an'', js ''a'', js ''be'', js ''at'', js ''it'', js ''if'',
    js ''else'', js ''then'', js ''can'', js ''should'', js ''could'', js ''would'',
    js ''using'', js ''used'', js ''use'', js ''also'', js ''such'', js ''than'', js ''been'',
    js ''was'', js ''were'']"

definition STOPWORDS_ZH :: "jsstring list" where
  "STOPWORDS_ZH =
   [[25105, 20204], [20320, 20204], [20182, 20204], [21487, 20197], [38656, 35201],
    [36827, 34892], [20197, 21450], [36890, 36807], [19968, 20010], [19968, 31181],
    [36825, 20123], [37027, 20123], [20026, 20102], [30456, 20851], [20351, 29992],
    [26041, 27861], [27493, 39588], [35828, 26126], [20869, 23481], [22788, 29702],
    [31995, 32479], [27169, 22359], [32467, 26524], [29983, 25104], [20998, 26512],
    [25191, 34892], [25903, 25345], [21253, 25324], [23454, 29616], [36827, 34892, 20013],
    [25552, 20379], [26681, 25454], [20854, 20013], [22914, 20309], [20160, 20040],
    [20026, 20160, 20040], [28982, 21518], [21542, 21017], [22914, 26524], [24403],
    [24182, 19988]]"

text \<open>
  \<open>s.match(/C{k,}|D{m,}/g) || []\<close> for two disjoint character classes: the matches are
  the maximal runs of \<open>C\<close> of length at least \<open>k\<close> and the maximal runs of \<open>D\<close> of length
  at least \<open>m\<close>, in the order of the text.  A run that is too short matches at none of its
  positions.  With an empty class \<open>D\<close> this is \<open>s.match(/C{k,}/g) || []\<close>.
\<close>

function matchRuns ::
  "(jschar \<Rightarrow> bool) \<Rightarrow> nat \<Rightarrow> (jschar \<Rightarrow> bool) \<Rightarrow> nat \<Rightarrow> jsstring \<Rightarrow> jsstring list" where
  "matchRuns C k D m [] = []"
| "matchRuns C k D m (c # cs) =
     (if C c then
        (if k \<le> Suc (length (takeWhile C cs)) then [c # takeWhile C cs] else [])
          @ matchRuns C k D m (dropWhile C cs)
      else if D c then
        (if m \<le> Suc (length (takeWhile D cs)) then [c # takeWhile D cs] else [])
          @ matchRuns C k D m (dropWhile D cs)
      else matchRuns C k D m cs)"
  by pat_completeness auto
termination
  by (relation "measure (\<lambda>(C, k, D, m, s). length s)")
     (auto simp: length_dropWhile_le less_Suc_eq_le)

definition noChar :: "jschar \<Rightarrow> bool" where
  "noChar c \<longleftrightarrow> False"

text \<open>
  \<open>tokenize(text, langMode)\<close>.  \<open>toLowerCase\<close> is the case mapping of the host's Unicode
  tables; it is the parameter \<open>lower\<close>.
\<close>

definition zhTokens :: "jsstring \<Rightarrow> jsstring list" where
  "zhTokens text = filter (\<lambda>x. x \<notin> set STOPWORDS_ZH) (matchRuns isCjk 2 noChar 0 text)"

definition enTokens :: "(jsstring \<Rightarrow> jsstring) \<Rightarrow> jsstring \<Rightarrow> jsstring list" where
  "enTokens lower text =
     filter (\<lambda>x. x \<notin> set STOPWORDS_EN) (matchRuns isLowerAlnum 3 noChar 0 (lower text))"

definition tokenize :: "(jsstring \<Rightarrow> jsstring) \<Rightarrow> jsstring \<Rightarrow> lang \<Rightarrow> jsstring list" where
  "tokenize lower text langMode =
     (let selectedLang = (if langMode = Auto then detectLanguage text else langMode) in
      if selectedLang = Zh then
        (if length (zhTokens text) > 0 then zhTokens text else enTokens lower text)
      else if selectedLang = En then
        (if length (enTokens lower text) > 0 then enTokens lower text else zhTokens text)
      else filter (\<lambda>x. x \<notin> set STOPWORDS) (matchRuns isLowerAlnum 3 isCjk 2 (lower text)))"

text \<open>
  \<open>toLowerCase\<close> on a string of ASCII characters: the letters \<open>A\<close> to \<open>Z\<close> go to \<open>a\<close>
  to \<open>z\<close>, every other ASCII character stays.
\<close>

definition asciiLower :: "jsstring \<Rightarrow> jsstring" where
  "asciiLower s = map (\<lambda>c. if 65 \<le> c \<and> c \<le> 90 then c + 32 else c) s"

section \<open>topKeywords\<close>

text \<open>
  The \<open>Map\<close> of frequencies keeps its keys in the order of their first insertion.
  \<open>freq.set(token, (freq.get(token) || 0) + 1)\<close>:
\<close>

fun bump :: "(jsstring \<times> nat) list \<Rightarrow> jsstring \<Rightarrow> (jsstring \<times> nat) list" where
  "bump [] token = [(token, 1)]"
| "bump ((k, n) # freq) token =
     (if k = token then (k, n + 1) # freq else (k, n) # bump freq token)"

text \<open>
  \<open>Array.prototype.sort\<close> is stable (ECMAScript 2019), as \<open>sort_key\<close> is; the comparator
  \<open>(a, b) => b[1] - a[1]\<close> orders by descending count.
\<close>

definition topKeywords :: "(jsstring \<Rightarrow> jsstring) \<Rightarrow> jsstring \<Rightarrow> int \<Rightarrow> lang \<Rightarrow> jsstring list" where
  "topKeywords lower text limit langMode =
     (let freq = foldl bump [] (tokenize lower text langMode) in
      map fst (slice (sort_key (\<lambda>(k, n). - int n) freq) 0 limit))"

section \<open>extractSteps\<close>

text \<open>
  The first of \<open>STEP_PATTERNS\<close> is \<^verbatim>\<open>/^\s*(\d+[.)\u3001]|[-*])\s+(.+)/\<close>, where the third
  separator is U+3001.  \<open>stepMarker\<close> is group 1 at the first character that is not white
  space: digits and one separator, or one of \<open>-\<close> and \<open>*\<close>.  The alternatives start with
  different characters and a digit is no separator, so giving back digits or white space
  finds no other match.  The result is group 1 and the text behind it.
\<close>

definition stepMarker :: "jsstring \<Rightarrow> (jsstring \<times> jsstring) option" where
  "stepMarker s =
     (let ds = takeWhile isDigit s in
      if ds \<noteq> [] then
        (case dropWhile isDigit s of
           [] \<Rightarrow> None
         | c # r \<Rightarrow> if c = 46 \<or> c = 41 \<or> c = 12289 then Some (ds @ [c], r) else None)
      else
        (case s of
           [] \<Rightarrow> None
         | c # r \<Rightarrow> if c = 45 \<or> c = 42 then Some ([c], r) else None))"

text \<open>
  \<^verbatim>\<open>\s+(.+)\<close> behind the marker; the result is group 2.  The white space \<open>w\<close> is taken
  greedily.  When a character follows it, that character is no line terminator and group 2
  runs from there to the next line terminator.  When the line ends with \<open>w\<close>, the
  expression gives white space back until \<open>.\<close> can match: group 2 is the last character of
  \<open>w\<close>, other than its first, that is no line terminator.
\<close>

definition stepRest :: "jsstring \<Rightarrow> jsstring option" where
  "stepRest r =
     (let w = takeWhile isSpace r; t = dropWhile isSpace r in
      if w = [] then None
      else if t \<noteq> [] then Some (takeWhile (\<lambda>c. \<not> isLineTerminator c) t)
      else
        (case filter (\<lambda>c. \<not> isLineTerminator c) (tl w) of
           [] \<Rightarrow> None
         | cs \<Rightarrow> Some [last cs]))"

definition matchStep1 :: "jsstring \<Rightarrow> (jsstring \<times> jsstring) option" where
  "matchStep1 line =
     (case stepMarker (dropWhile isSpace line) of
        None \<Rightarrow> None
      | Some (m1, r) \<Rightarrow> (case stepRest r of None \<Rightarrow> None | Some m2 \<Rightarrow> Some (m1, m2)))"

text \<open>
  The second pattern is a step marker in Chinese: U+7B2C, at least one of the ten numerals
  U+4E00 ... U+5341 or an ASCII digit, U+6B65; then \<^verbatim>\<open>\s*[:]?\s*(.+)$\<close> with the
  separators \<open>:\<close>, U+FF1A and U+3001.
\<close>

definition isStepNumeral :: "jschar \<Rightarrow> bool" where
  "isStepNumeral c \<longleftrightarrow>
     c \<in> {19968, 20108, 19977, 22235, 20116, 20845, 19971, 20843, 20061, 21313} \<or> isDigit c"

definition stepMarkerZh :: "jsstring \<Rightarrow> (jsstring \<times> jsstring) option" where
  "stepMarkerZh s =
     (case s of
        [] \<Rightarrow> None
      | c # r \<Rightarrow>
          if c = 31532 \<and> takeWhile isStepNumeral r \<noteq> [] then
            (case dropWhile isStepNumeral r of
               [] \<Rightarrow> None
             | d # r' \<Rightarrow>
                 if d = 27493 then Some (c # takeWhile isStepNumeral r @ [d], r') else None)
          else None)"

text \<open>
  Group 2 of the second pattern must reach the end of the line without a line terminator.
  The greedy choice takes the white space, the separator if there is one, and the white
  space behind it; when text \<open>t\<close> is left, group 2 is \<open>t\<close>, or there is no match when \<open>t\<close>
  holds a line terminator (every other choice makes group 2 longer).  When nothing is left,
  the expression gives characters back one at a time, and group 2 is the last character of
  the line, unless that is a line terminator.
\<close>

definition isStepSep :: "jschar \<Rightarrow> bool" where
  "isStepSep c \<longleftrightarrow> c = 65306 \<or> c = 58 \<or> c = 12289"

definition stepRestZh :: "jsstring \<Rightarrow> jsstring option" where
  "stepRestZh r =
     (let r1 = dropWhile isSpace r;
          r2 = (case r1 of [] \<Rightarrow> [] | c # cs \<Rightarrow> if isStepSep c then cs else r1);
          t = dropWhile isSpace r2
      in if t \<noteq> [] then
           (if list_ex isLineTerminator t then None else Some t)
         else if r \<noteq> [] \<and> \<not> isLineTerminator (last r) then Some [last r]
         else None)"

definition matchStep2 :: "jsstring \<Rightarrow> (jsstring \<times> jsstring) option" where
  "matchStep2 line =
     (case stepMarkerZh (dropWhile isSpace line) of
        None \<Rightarrow> None
      | Some (m1, r) \<Rightarrow> (case stepRestZh r of None \<Rightarrow> None | Some m2 \<Rightarrow> Some (m1, m2)))"

text \<open>
  The body of the loop over the lines: the first pattern that matches decides, and the
  value \<open>(m[2] || m[1] || "").trim()\<close> is kept when it has more than 4 characters.
\<close>

definition stepOfLine :: "jsstring \<Rightarrow> jsstring list" where
  "stepOfLine line =
     (case (case matchStep1 line of Some m \<Rightarrow> Some m | None \<Rightarrow> matchStep2 line) of
        None \<Rightarrow> []
      | Some (m1, m2) \<Rightarrow>
          (let val = trim (if m2 \<noteq> [] then m2 else m1) in
           if val \<noteq> [] \<and> length val > 4 then [val] else []))"

definition extractSteps :: "jsstring \<Rightarrow> jsstring list" where
  "extractSteps text =
     slice (concat (map stepOfLine (splitEach (\<lambda>c. c = NL) [] text))) 0 8"

section \<open>extractConditions\<close>

text \<open>
  The ten \<open>CONDITIONAL_PATTERNS\<close> are a key word followed by \<open>.+\<close>, which stays between
  two line terminators; so each pattern is matched on the pieces of the text between the
  line terminators, and a piece holds at most one match of a pattern.  Five key words are
  English words between word boundaries \<open>\b\<close>, matched without regard to case (flag \<open>i\<close>,
  which pairs only the ASCII letters); five are Chinese.
\<close>

definition isWordChar :: "jschar \<Rightarrow> bool" where
  "isWordChar c \<longleftrightarrow> isLatinLetter c \<or> isDigit c \<or> c = 95"

fun ciPrefix :: "jsstring \<Rightarrow> jsstring \<Rightarrow> bool" where
  "ciPrefix [] s = True"
| "ciPrefix (p # ps) [] = False"
| "ciPrefix (p # ps) (c # cs) = ((c = p \<or> c + 32 = p) \<and> ciPrefix ps cs)"

text \<open>
  \<open>wordHere w prev s\<close>: the lower-case word \<open>w\<close> matches at the head of \<open>s\<close> between two
  word boundaries, where \<open>prev\<close> tells whether the character before \<open>s\<close> is a word character.
\<close>

definition wordHere :: "jsstring \<Rightarrow> bool \<Rightarrow> jsstring \<Rightarrow> bool" where
  "wordHere w prev s \<longleftrightarrow>
     \<not> prev \<and> ciPrefix w s \<and>
     (case drop (length w) s of [] \<Rightarrow> True | c # cs \<Rightarrow> \<not> isWordChar c)"

definition textHere :: "jsstring \<Rightarrow> bool \<Rightarrow> jsstring \<Rightarrow> bool" where
  "textHere w prev s \<longleftrightarrow> prefix w s"

text \<open>The rest of the piece from the leftmost position where the key word matches.\<close>

fun findFirst :: "(bool \<Rightarrow> jsstring \<Rightarrow> bool) \<Rightarrow> bool \<Rightarrow> jsstring \<Rightarrow> jsstring option" where
  "findFirst here prev [] = None"
| "findFirst here prev (c # cs) =
     (if here prev (c # cs) then Some (c # cs) else findFirst here (isWordChar c) cs)"

text \<open>The positions behind every match of the key word, counted from \<open>i\<close>.\<close>

fun matchEnds :: "(bool \<Rightarrow> jsstring \<Rightarrow> bool) \<Rightarrow> nat \<Rightarrow> bool \<Rightarrow> jsstring \<Rightarrow> nat \<Rightarrow> nat list" where
  "matchEnds here n prev [] i = []"
| "matchEnds here n prev (c # cs) i =
     (if here prev (c # cs) then [i + n] else []) @ matchEnds here n (isWordChar c) cs (Suc i)"

text \<open>
  A key word of \<open>n\<close> characters followed by \<open>.+\<close>: the match starts at the leftmost key word
  and runs to the end of the piece; at least one character must follow the key word.
\<close>

definition keywordClause :: "(bool \<Rightarrow> jsstring \<Rightarrow> bool) \<Rightarrow> nat \<Rightarrow> jsstring \<Rightarrow> jsstring list" where
  "keywordClause here n piece =
     (case findFirst here False piece of
        None \<Rightarrow> []
      | Some t \<Rightarrow> if length t > n then [t] else [])"

text \<open>
  \<^verbatim>\<open>/\bif\b.+\bthen\b/gi\<close>: from the leftmost \<open>if\<close> the greedy \<open>.+\<close> is shortened until
  \<open>then\<close> matches, so the match ends behind the last \<open>then\<close> that leaves at least one
  character between the two words.
\<close>

definition ifThenClause :: "jsstring \<Rightarrow> jsstring list" where
  "ifThenClause piece =
     (case findFirst (wordHere (js ''if'')) False piece of
        None \<Rightarrow> []
      | Some t \<Rightarrow>
          (case filter (\<lambda>e. 7 \<le> e) (matchEnds (wordHere (js ''then'')) 4 False t 0) of
             [] \<Rightarrow> []
           | es \<Rightarrow> [take (last es) t]))"

definition CONDITIONAL_PATTERNS :: "(jsstring \<Rightarrow> jsstring list) list" where
  "CONDITIONAL_PATTERNS =
     [ifThenClause,
      keywordClause (wordHere (js ''if'')) 2,
      keywordClause (wordHere (js ''when'')) 4,
      keywordClause (wordHere (js ''unless'')) 6,
      keywordClause (wordHere (js ''else'')) 4,
      keywordClause (textHere [22914, 26524]) 2,
      keywordClause (textHere [33509]) 1,
      keywordClause (textHere [24403]) 1,
      keywordClause (textHere [21542, 21017]) 2,
      keywordClause (textHere [24322, 24120]) 2]"

definition extractConditions :: "jsstring \<Rightarrow> jsstring list" where
  "extractConditions text =
     (let pieces = splitEach isLineTerminator [] text;
          found = concat (map (\<lambda>p.
                    filter (\<lambda>clean. length clean \<ge> 8 \<and> length clean \<le> 100)
                      (map (\<lambda>m. trim (replaceRuns isSpace 1 [SP] m)) (concat (map p pieces))))
                    CONDITIONAL_PATTERNS)
      in slice (uniq found) 0 8)"

section \<open>estimateRoutingScore\<close>

definition estimateRoutingScore ::
  "jsstring list \<Rightarrow> jsstring list \<Rightarrow> jsstring list \<Rightarrow> jsstring list \<Rightarrow> int" where
  "estimateRoutingScore keywords steps conditions queryTokens =
     (if length queryTokens = 0 then 60
      else
        (let overlap = int (length (filter (\<lambda>x. x \<in> set keywords) queryTokens));
             density = min 25 (jsRound (of_nat (length keywords) / 12 * 25));
             conditionBonus = min 20 (int (length conditions) * 4);
             stepBonus = min 15 (int (length steps) * 3);
             overlapScore = min 40 (overlap * 8)
         in max 0 (min 100 (overlapScore + density + conditionBonus + stepBonus))))"

section \<open>Skill items\<close>

text \<open>\<open>String(n)\<close> for a natural number, and \<open>s.padStart(3, "0")\<close>.\<close>

fun showNat :: "nat \<Rightarrow> jsstring" where
  "showNat n = (if n < 10 then [48 + n] else showNat (n div 10) @ [48 + n mod 10])"

declare showNat.simps [simp del]

definition padStart3 :: "jsstring \<Rightarrow> jsstring" where
  "padStart3 s = replicate (3 - length s) 48 @ s"

definition skillId :: "nat \<Rightarrow> jsstring" where
  "skillId index = js ''skill-'' @ padStart3 (showNat (index + 1))"

text \<open>
  \<open>toTitle(line, index)\<close>: the leading run of \<^verbatim>\<open>[-*#\d.\s]\<close> and the trailing run of
  sentence punctuation (\<open>.\<close> \<open>!\<close> \<open>?\<close> \<open>;\<close> \<open>:\<close> and U+3002, U+FF1B, U+FF1A) are removed.
\<close>

definition isTitleLead :: "jschar \<Rightarrow> bool" where
  "isTitleLead c \<longleftrightarrow> c = 45 \<or> c = 42 \<or> c = 35 \<or> isDigit c \<or> c = 46 \<or> isSpace c"

definition isTitleTail :: "jschar \<Rightarrow> bool" where
  "isTitleTail c \<longleftrightarrow> c \<in> {12290, 46, 33, 63, 65307, 59, 58, 65306}"

definition toTitle :: "jsstring \<Rightarrow> nat \<Rightarrow> jsstring" where
  "toTitle line index =
     (let clean = trim (rev (dropWhile isTitleTail (rev (dropWhile isTitleLead line)))) in
      if clean = [] then skillId index
      else if length clean > 42 then slice clean 0 42 else clean)"

record skillItem =
  skill_id :: jsstring
  title :: jsstring
  trigger :: jsstring
  content :: jsstring
  item_keywords :: "jsstring list"
  steps :: "jsstring list"
  conditions :: "jsstring list"
  baseScore :: int

text \<open>The function that \<open>run\<close> maps over the chunks.\<close>

definition compileItem :: "(jsstring \<Rightarrow> jsstring) \<Rightarrow> lang \<Rightarrow> jsstring \<Rightarrow> nat \<Rightarrow> skillItem" where
  "compileItem lower langMode chunk idx =
     (let firstLine = hd (splitEach (\<lambda>c. c = NL) [] chunk);
          ttl = toTitle firstLine idx;
          kws = topKeywords lower chunk 12 langMode;
          sts = extractSteps chunk;
          conds = extractConditions chunk
      in \<lparr> skill_id = skillId idx,
           title = ttl,
           trigger = (if length ttl > 24 then slice ttl 0 24 @ js ''...'' else ttl),
           content = chunk,
           item_keywords = kws,
           steps = sts,
           conditions = conds,
           baseScore = estimateRoutingScore kws sts conds (slice kws 0 5) \<rparr>)"

definition compileItems :: "(jsstring \<Rightarrow> jsstring) \<Rightarrow> lang \<Rightarrow> jsstring list \<Rightarrow> skillItem list" where
  "compileItems lower langMode clippedChunks =
     map (\<lambda>(idx, chunk). compileItem lower langMode chunk idx) (enumerate 0 clippedChunks)"

section \<open>jaccard and buildDependencies\<close>

text \<open>
  The similarity is the double nearest to a quotient of two set sizes, and the model is
  the rational quotient.  The two agree on the comparison with \<open>0.22\<close> and on
  \<open>toFixed(2)\<close> for the keyword lists of compiled items: these have at most 12 entries,
  so the union has at most 24, and a quotient with a denominator up to 24 either differs
  from \<open>0.22\<close> and from every tie of the rounding by much more than the error of the
  division, or is a tie \<open>k / 8\<close>, which is a double, and \<open>toFixed\<close> rounds a tie that
  it meets exactly upwards.  For larger sets the two can differ: \<open>17 / 40\<close> is a tie of
  the rationals, the double nearest to it lies below, and \<open>toFixed(2)\<close> gives 0.42.
\<close>

definition jaccard :: "jsstring list \<Rightarrow> jsstring list \<Rightarrow> rat" where
  "jaccard a b =
     (let sa = uniq a; sb = uniq b in
      if length sa = 0 \<and> length sb = 0 then 0
      else
        (let inter = length (filter (\<lambda>x. x \<in> set sb) sa);
             union = length sa + length sb - inter
         in if union = 0 then 0 else of_nat inter / of_nat union))"

text \<open>\<open>Number(score.toFixed(2))\<close> for a score that is not negative.\<close>

definition toFixed2 :: "rat \<Rightarrow> rat" where
  "toFixed2 q = of_int \<lfloor>q * 100 + 1 / 2\<rfloor> / 100"

record edge =
  from_id :: jsstring
  to_id :: jsstring
  weight :: rat

definition edgePairs :: "skillItem list \<Rightarrow> edge list" where
  "edgePairs items =
     concat (map (\<lambda>i. concat (map (\<lambda>j.
       if i = j then []
       else
         (let score = jaccard (item_keywords (items ! i)) (item_keywords (items ! j)) in
          if score \<ge> 22 / 100
          then [\<lparr> from_id = skill_id (items ! i), to_id = skill_id (items ! j),
                   weight = toFixed2 score \<rparr>]
          else []))
       [0 ..< length items])) [0 ..< length items])"

text \<open>\<open>m.set(k, v)\<close> on a \<open>Map\<close>: a key that is present keeps its place.\<close>

fun mapSet :: "(jsstring \<times> 'v) list \<Rightarrow> jsstring \<Rightarrow> 'v \<Rightarrow> (jsstring \<times> 'v) list" where
  "mapSet [] k v = [(k, v)]"
| "mapSet ((k', v') # m) k v = (if k' = k then (k', v) # m else (k', v') # mapSet m k v)"

definition edgeKey :: "edge \<Rightarrow> jsstring" where
  "edgeKey d = from_id d @ js ''->'' @ to_id d"

definition buildDependencies :: "skillItem list \<Rightarrow> edge list" where
  "buildDependencies items =
     (let deps = edgePairs items;
          dedup = foldl (\<lambda>m d. mapSet m (edgeKey d) d) [] deps
      in map snd dedup)"

section \<open>The files of a pack\<close>

text \<open>
  Numbers in template strings: \<open>String(n)\<close> for an integer below \<open>10^21\<close> in absolute value,
  \<open>NaN\<close>, and a weight, which is a number of hundredths between 0 and 1 and prints with
  its shortest decimal expansion.  \<open>Number(s)\<close> on a string of digits is \<open>numberOfDigits\<close>.
\<close>

definition showInt :: "int \<Rightarrow> jsstring" where
  "showInt i = (if i < 0 then js ''-'' @ showNat (nat (- i)) else showNat (nat i))"

definition showNum :: "jsnum \<Rightarrow> jsstring" where
  "showNum x = (case x of Num i \<Rightarrow> showInt i | NaN \<Rightarrow> js ''NaN'')"

definition showWeight :: "rat \<Rightarrow> jsstring" where
  "showWeight w =
     (let n = nat \<lfloor>w * 100\<rfloor> in
      if n mod 100 = 0 then showNat (n div 100)
      else if n mod 10 = 0 then showNat (n div 100) @ js ''.'' @ showNat (n mod 100 div 10)
      else showNat (n div 100) @ js ''.'' @ showNat (n mod 100 div 10) @ showNat (n mod 10))"

definition numberOfDigits :: "jsstring \<Rightarrow> int" where
  "numberOfDigits s = foldl (\<lambda>a c. 10 * a + (int c - 48)) 0 s"

definition showLang :: "lang \<Rightarrow> jsstring" where
  "showLang l = (case l of Auto \<Rightarrow> js ''auto'' | Zh \<Rightarrow> js ''zh'' | En \<Rightarrow> js ''en'')"

text \<open>
  \<open>slugify(name)\<close>: trimmed and lower-cased, every run of characters other than \<open>a-z\<close>,
  \<open>0-9\<close> and the Chinese range becomes one hyphen, and one hyphen is removed at each end.
\<close>

definition isSlugChar :: "jschar \<Rightarrow> bool" where
  "isSlugChar c \<longleftrightarrow> isLowerAlnum c \<or> isCjk c"

definition slugify :: "(jsstring \<Rightarrow> jsstring) \<Rightarrow> jsstring \<Rightarrow> jsstring" where
  "slugify lower name =
     (let s = replaceRuns (\<lambda>c. c = 45) 1 (js ''-'')
                (replaceRuns (\<lambda>c. \<not> isSlugChar c) 1 (js ''-'') (lower (trim name)));
          s1 = (case s of [] \<Rightarrow> [] | c # cs \<Rightarrow> if c = 45 then cs else s)
      in if s1 \<noteq> [] \<and> last s1 = 45 then butlast s1 else s1)"

definition buildMainSkillMd :: "jsstring \<Rightarrow> jsstring \<Rightarrow> nat \<Rightarrow> jsstring" where
  "buildMainSkillMd skillName description chunkCount =
     join [NL]
      [js ''---'',
       js ''name: '' @ skillName,
       js ''description: '' @ description,
       js ''version: 0.1.0'',
       js ''---'',
       [],
       js ''# '' @ skillName,
       [],
       js ''This skill pack is auto-compiled from a source PDF.'',
       [],
       js ''## How it works'',
       [],
       js ''- Claude/OpenCode reads '' @ [96] @ js ''skills/index.md'' @ [96] @ js '' to route sub-skills.'',
       js ''- Each '' @ [96] @ js ''skills/skill-xxx.md'' @ [96] @ js '' contains one atomic capability unit.'',
       js ''- Use this pack when user intent matches a topic in the source book/manual.'',
       [],
       js ''## Routing'',
       [],
       js ''When request includes concepts, methods, procedures, troubleshooting, or checklist'',
       js ''from this domain, select the most relevant atomic skill in '' @ [96] @ js ''skills/index.md'' @ [96] @ js ''.'',
       [],
       js ''## Stats'' @ [10, 10] @ js ''- Generated atomic skills: '' @ showNat chunkCount,
       js ''- Routing metadata: '' @ [96] @ js ''skills/routes.json'' @ [96],
       js ''- Dependency graph: '' @ [96] @ js ''skills/dependency-graph.md'' @ [96]]"

text \<open>
  \<open>buildAtomicSkillMd(index, title, content, keywords, steps, conditions)\<close>; the steps are
  numbered from 1.
\<close>

definition buildAtomicSkillMd ::
  "int \<Rightarrow> jsstring \<Rightarrow> jsstring \<Rightarrow> jsstring list \<Rightarrow> jsstring list \<Rightarrow> jsstring list \<Rightarrow> jsstring" where
  "buildAtomicSkillMd index ttl cont kws sts conds =
     (let sid = js ''skill-'' @ padStart3 (showInt (index + 1)) in
      join [NL]
       ([js ''---'',
         js ''name: '' @ sid,
         js ''description: '' @ ttl,
         js ''---'',
         [],
         js ''# '' @ ttl,
         [],
         js ''## Trigger'',
         [],
         js ''Use this skill when the user asks about: '' @ ttl,
         [],
         js ''**Keywords**: '' @ join (js '', '') kws,
         [],
         js ''## Input'',
         [],
         js ''- User objective'',
         js ''- Current constraints and context'',
         [],
         js ''## Procedure'',
         [],
         js ''1. Extract the user'' @ [39] @ js ''s concrete target.'',
         js ''2. Map target to the applicable rules/methods below.'',
         js ''3. Output a concise, actionable plan.'',
         [],
         js ''## Extracted Steps'',
         []]
        @ (if length sts > 0
           then map (\<lambda>(idx2, s). showNat (idx2 + 1) @ js ''. '' @ s) (enumerate 0 sts)
           else [js ''1. No explicit numbered steps found in source.''])
        @ [[], js ''## Conditions / Branches'', []]
        @ (if length conds > 0
           then map (\<lambda>c. js ''- '' @ c) conds
           else [js ''- No explicit IF/ELSE style branch found in source.''])
        @ [[], js ''## Knowledge'', [], cont]))"

text \<open>
  \<open>buildIndexMd(items, minScore)\<close> joins eight lines of header, the fifth of which records
  the cutoff, and one row for each item.
\<close>

definition indexHeader :: "jsnum \<Rightarrow> jsstring list" where
  "indexHeader minScore =
     [js ''# Skill Index'',
      [],
      js ''This file routes user requests to atomic skills.'',
      [],
      js ''Routing score cutoff: '' @ showNum minScore,
      [],
      js ''| Skill ID | Topic | Trigger Hint | Base Score |'',
      js ''|---|---|---|---|'']"

definition indexRow :: "skillItem \<Rightarrow> jsstring" where
  "indexRow item =
     js ''| '' @ skill_id item @ js '' | '' @ title item @ js '' | '' @ trigger item @
     js '' | '' @ showInt (baseScore item) @ js '' |''"

definition buildIndexMd :: "skillItem list \<Rightarrow> jsnum \<Rightarrow> jsstring" where
  "buildIndexMd items minScore = join [NL] (indexHeader minScore @ map indexRow items)"

definition buildDependencyGraphMd :: "skillItem list \<Rightarrow> edge list \<Rightarrow> jsstring" where
  "buildDependencyGraphMd items deps =
     join [NL]
      ([js ''# Dependency Graph'', [], [96, 96, 96] @ js ''mermaid'', js ''graph LR'']
       @ map (\<lambda>item. js ''  '' @ skill_id item @ [91, 34] @ skill_id item @ js '': '' @
                 map (\<lambda>c. if c = 34 then 39 else c) (title item) @ [34, 93]) items
       @ map (\<lambda>d. js ''  '' @ from_id d @ js '' -->|'' @ showWeight (weight d) @ js ''| '' @ to_id d) deps
       @ [[96, 96, 96], [], js ''## Notes'', [],
          js ''- Edge weight is keyword-overlap similarity (Jaccard).'',
          js ''- Use stronger links first when composing multi-skill answers.''])"

text \<open>
  \<open>buildRoutesJson\<close> hands an object to \<open>JSON.stringify\<close>; the model keeps the object.
\<close>

record routeSkill =
  route_id :: jsstring
  route_title :: jsstring
  route_trigger :: jsstring
  route_baseScore :: int
  route_keywords :: "jsstring list"

record routes =
  version :: jsstring
  routes_minScore :: jsnum
  skills :: "routeSkill list"
  routes_dependencies :: "edge list"

definition buildRoutesJson :: "skillItem list \<Rightarrow> edge list \<Rightarrow> jsnum \<Rightarrow> routes" where
  "buildRoutesJson items deps minScore =
     \<lparr> version = js ''0.2.0'',
       routes_minScore = minScore,
       skills = map (\<lambda>x. \<lparr> route_id = skill_id x, route_title = title x,
                               route_trigger = trigger x, route_baseScore = baseScore x,
                               route_keywords = item_keywords x \<rparr>) items,
       routes_dependencies = deps \<rparr>"

definition buildReadme :: "jsstring \<Rightarrow> lang \<Rightarrow> nat \<Rightarrow> jsstring" where
  "buildReadme skillName langMode inputCount =
     join [NL]
      [js ''# '' @ skillName,
       [],
       js ''Generated by pdf2skill-lite.'',
       [],
       js ''Language mode: '' @ showLang langMode,
       js ''Input files: '' @ showNat inputCount,
       [],
       js ''## Files'',
       [],
       js ''- '' @ [96] @ js ''SKILL.md'' @ [96] @ js '': entry skill'',
       js ''- '' @ [96] @ js ''skills/index.md'' @ [96] @ js '': router index'',
       js ''- '' @ [96] @ js ''skills/skill-xxx.md'' @ [96] @ js '': atomic skills'',
       js ''- '' @ [96] @ js ''references/source_excerpt.md'' @ [96] @ js '': extracted source text'',
       [],
       js ''## Install'',
       [],
       js ''Copy this folder to your skill directory.'']"

section \<open>run\<close>

text \<open>
  The two errors that \<open>run\<close> throws on its text: "Failed to extract text from PDF (empty
  output)" and "No meaningful semantic chunks extracted from PDF".
\<close>

datatype failure = EmptyExtraction | NoSemanticContent

text \<open>
  An outcome of \<open>run\<close>: one of its two errors; \<open>Hangs\<close>, the second loop of \<open>chunkBlocks\<close>
  whose condition never fails, which is no return of \<open>run\<close> and none of its two errors;
  or the pack that is written to the folder and to the archive.
\<close>

datatype 'a outcome = Failed failure | Hangs | Done 'a

datatype fileContent = Text jsstring | Json routes

record pack =
  skillItems :: "skillItem list"
  dependencies :: "edge list"
  files :: "(jsstring \<times> fileContent) list"

text \<open>
  The arguments as \<open>parseArgs\<close> leaves them; \<open>run\<close> takes \<open>auto\<close> for any language other
  than \<open>zh\<close> and \<open>en\<close>, and 24 for a \<open>maxChunks\<close> that is not a finite number.
\<close>

record args =
  arg_name :: jsstring
  arg_maxChunks :: jsnum
  arg_minScore :: jsnum
  arg_lang :: jsstring

definition langModeOf :: "jsstring \<Rightarrow> lang" where
  "langModeOf l = (if l = js ''zh'' then Zh else if l = js ''en'' then En else Auto)"

definition maxChunksOf :: "jsnum \<Rightarrow> int" where
  "maxChunksOf m = (case m of Num n \<Rightarrow> n | NaN \<Rightarrow> 24)"

text \<open>
  The loop of \<open>run\<close> over the input files, each given by its base name and the text that
  the PDF parser found in it.
\<close>

definition extractedTexts :: "(jsstring \<times> jsstring) list \<Rightarrow> jsstring list" where
  "extractedTexts sources =
     concat (map (\<lambda>(base, parsed).
       (let normalizedSingle = normalizeText parsed in
        if normalizedSingle \<noteq> []
        then [js ''## Source: '' @ base @ [NL, NL] @ normalizedSingle]
        else [])) sources)"

definition packFiles ::
  "jsstring \<Rightarrow> lang \<Rightarrow> nat \<Rightarrow> jsnum \<Rightarrow> jsstring \<Rightarrow> skillItem list \<Rightarrow> edge list \<Rightarrow>
   (jsstring \<times> fileContent) list" where
  "packFiles skillName langMode inputCount minScore normalized items deps =
     (let desc = js ''Auto-compiled from '' @ showNat inputCount @ js '' PDF file(s). Includes '' @
                 showNat (length items) @ js '' atomic skills.''
      in [(js ''SKILL.md'', Text (buildMainSkillMd skillName desc (length items))),
          (js ''README.md'', Text (buildReadme skillName langMode inputCount)),
          (js ''skills/index.md'', Text (buildIndexMd items minScore)),
          (js ''skills/dependency-graph.md'', Text (buildDependencyGraphMd items deps)),
          (js ''skills/routes.json'', Json (buildRoutesJson items deps minScore))]
         @ map (\<lambda>item.
             (js ''skills/'' @ skill_id item @ js ''.md'',
              Text (buildAtomicSkillMd (numberOfDigits (slice (skill_id item) (-3) (int (length (skill_id item)))) - 1)
                      (title item) (content item) (item_keywords item) (steps item)
                      (conditions item)))) items
         @ [(js ''references/source_excerpt.md'', Text (slice normalized 0 120000))])"

text \<open>
  \<open>run\<close> from the joined text of the inputs on: the text is normalized, split, chunked
  and clipped, and every chunk that is left becomes an item.
\<close>

definition runOnText ::
  "(jsstring \<Rightarrow> jsstring) \<Rightarrow> args \<Rightarrow> nat \<Rightarrow> jsstring \<Rightarrow> pack outcome" where
  "runOnText lower a inputCount joined =
     (let langMode = langModeOf (arg_lang a);
          skillName = slugify lower (arg_name a);
          normalized = normalizeText joined
      in if normalized = [] then Failed EmptyExtraction
         else
           (let blocks = splitSemanticBlocks normalized in
            case chunkBlocks blocks (maxChunksOf (arg_maxChunks a)) of
              None \<Rightarrow> Hangs
            | Some chunks \<Rightarrow>
                (let clippedChunks = filter (\<lambda>x. nonSpaceLength x > 80) chunks in
                 if length clippedChunks = 0 then Failed NoSemanticContent
                 else
                   (let items = compileItems lower langMode clippedChunks;
                        deps = buildDependencies items
                    in Done \<lparr> skillItems = items, dependencies = deps,
                              files = packFiles skillName langMode inputCount (arg_minScore a)
                                        normalized items deps \<rparr>))))"

definition run :: "(jsstring \<Rightarrow> jsstring) \<Rightarrow> args \<Rightarrow> (jsstring \<times> jsstring) list \<Rightarrow> pack outcome" where
  "run lower a sources = runOnText lower a (length sources) (join [NL, NL] (extractedTexts sources))"

section \<open>Predicates of the proofs\<close>

text \<open>\<open>noRun C k t\<close>: the text \<open>t\<close> has no \<open>k\<close> consecutive characters of the class \<open>C\<close>.\<close>

definition noRun :: "(jschar \<Rightarrow> bool) \<Rightarrow> nat \<Rightarrow> jsstring \<Rightarrow> bool" where
  "noRun C k t \<longleftrightarrow> (\<forall>w. sublist w t \<longrightarrow> list_all C w \<longrightarrow> length w < k)"

definition tidy :: "jsstring \<Rightarrow> bool" where
  "tidy t \<longleftrightarrow> CR \<notin> set t \<and> TAB \<notin> set t \<and> NBSP \<notin> set t \<and>
     noRun isBlank 2 t \<and> noRun (\<lambda>c. c = NL) 3 t"

text \<open>
  Grouping a list into consecutive batches of \<open>r\<close> elements, the last one possibly
  shorter: what the second loop of \<open>chunkBlocks\<close> is meant to compute.
\<close>

function batches :: "nat \<Rightarrow> 'a list \<Rightarrow> 'a list list" where
  "batches r xs = (if r = 0 \<or> xs = [] then [] else take r xs # batches r (drop r xs))"
  by pat_completeness auto
termination
  by (relation "measure (\<lambda>(r, xs). length xs)") auto

declare batches.simps [simp del]

text \<open>The position of the first appearance of a token in a list of tokens.\<close>

definition firstIndex :: "'a list \<Rightarrow> 'a \<Rightarrow> nat" where
  "firstIndex xs x = length (takeWhile (\<lambda>y. y \<noteq> x) xs)"

text \<open>
  The stop words that apply to the way a text was tokenized: those of the language whose
  tokens \<open>tokenize\<close> returned, or the combined list when no language was selected.
\<close>

definition usedStopwords :: "(jsstring \<Rightarrow> jsstring) \<Rightarrow> jsstring \<Rightarrow> lang \<Rightarrow> jsstring list" where
  "usedStopwords lower text langMode =
     (let selectedLang = (if langMode = Auto then detectLanguage text else langMode) in
      if selectedLang = Zh then
        (if zhTokens text \<noteq> [] then STOPWORDS_ZH else STOPWORDS_EN)
      else if selectedLang = En then
        (if enTokens lower text \<noteq> [] then STOPWORDS_EN else STOPWORDS_ZH)
      else STOPWORDS)"

text \<open>
  The ranking of the keywords in the words of the specification: a token stands before
  another when it is more frequent, or as frequent and first seen earlier.
\<close>

definition ranksBefore :: "jsstring list \<Rightarrow> jsstring \<Rightarrow> jsstring \<Rightarrow> bool" where
  "ranksBefore toks a b \<longleftrightarrow>
     count_list toks b < count_list toks a \<or>
     (count_list toks a = count_list toks b \<and> firstIndex toks a < firstIndex toks b)"

text \<open>
  The routing score in the words of the specification, for an item's keywords, steps and
  conditions: the probe is the item's own top 5 keywords, and the four terms are clamped
  to \<open>[0, 100]\<close>; the score of an empty probe is 60.
\<close>

definition clamp :: "int \<Rightarrow> int \<Rightarrow> int \<Rightarrow> int" where
  "clamp x lo hi = max lo (min hi x)"

definition routingScoreSpec :: "jsstring list \<Rightarrow> jsstring list \<Rightarrow> jsstring list \<Rightarrow> int" where
  "routingScoreSpec kws sts conds =
     (let probe = take 5 kws;
          overlapScore = min 40 (8 * int (card (set probe \<inter> set kws)));
          densityScore = min 25 (jsRound (25 * of_nat (length kws) / 12));
          conditionBonus = min 20 (4 * int (length conds));
          stepBonus = min 15 (3 * int (length sts))
      in if probe = [] then 60
         else clamp (overlapScore + densityScore + conditionBonus + stepBonus) 0 100)"

text \<open>Reading a decimal numeral back, to tell the ids of two items apart.\<close>

definition readNat :: "jsstring \<Rightarrow> nat" where
  "readNat s = foldl (\<lambda>a c. 10 * a + (c - 48)) 0 s"

text \<open>
  The Jaccard similarity of two keyword sets in the words of the specification:
  \<open>|A \<inter> B| / |A \<union> B|\<close>, and 0 when both sets are empty.
\<close>

definition jaccardSpec :: "jsstring list \<Rightarrow> jsstring list \<Rightarrow> rat" where
  "jaccardSpec a b =
     (if set a \<union> set b = {} then 0
      else of_nat (card (set a \<inter> set b)) / of_nat (card (set a \<union> set b)))"

text \<open>What a finished run is asked for: a function of its pack, or of its items.\<close>

fun mapOutcome :: "('a \<Rightarrow> 'b) \<Rightarrow> 'a outcome \<Rightarrow> 'b outcome" where
  "mapOutcome f (Done p) = Done (f p)"
| "mapOutcome f (Failed e) = Failed e"
| "mapOutcome f Hangs = Hangs"

fun itemsOf :: "pack outcome \<Rightarrow> skillItem list option" where
  "itemsOf (Done p) = Some (skillItems p)"
| "itemsOf (Failed e) = None"
| "itemsOf Hangs = None"

text \<open>The object that a finished run writes to \<open>skills/routes.json\<close>, when it writes one.\<close>

fun routesOf :: "pack outcome \<Rightarrow> routes option" where
  "routesOf (Done p) =
     (case filter (\<lambda>f. fst f = js ''skills/routes.json'') (files p) of
        [(name, Json r)] \<Rightarrow> Some r
      | _ \<Rightarrow> None)"
| "routesOf (Failed e) = None"
| "routesOf Hangs = None"

section \<open>Runs of a character class\<close>

lemma noRun_sublist: "sublist t' t \<Longrightarrow> noRun C k t \<Longrightarrow> noRun C k t'"
  unfolding noRun_def using sublist_order.order_trans by blast

lemma noRun_Nil: "0 < k \<Longrightarrow> noRun C k []"
  by (simp add: noRun_def)

lemma prefix_run_stop:
  assumes "prefix w (p @ t)" "list_all C w" "t = [] \<or> \<not> C (hd t)"
  shows "prefix w p"
proof -
  from assms(1) consider "prefix w p" | us where "w = p @ us" "prefix us t"
    by (auto simp: prefix_append)
  then show ?thesis
  proof cases
    case 1 then show ?thesis .
  next
    case 2
    have "us = []"
    proof (cases us)
      case Nil then show ?thesis .
    next
      case (Cons u us')
      with 2(2) obtain t' where "t = u # t'" by (cases t) auto
      with assms(2,3) 2(1) Cons show ?thesis by auto
    qed
    with 2(1) show ?thesis by simp
  qed
qed

lemma noRun_append:
  assumes "noRun C k t" "t = [] \<or> \<not> C (hd t)" "length p < k"
  shows "noRun C k (p @ t)"
  using assms(3)
proof (induction p)
  case Nil
  then show ?case using assms(1) by simp
next
  case (Cons a p)
  then have ih: "noRun C k (p @ t)" by simp
  show ?case
    unfolding noRun_def
  proof (intro allI impI)
    fix w assume w: "sublist w ((a # p) @ t)" "list_all C w"
    then consider "prefix w ((a # p) @ t)" | "sublist w (p @ t)"
      by (auto simp: sublist_Cons_right)
    then show "length w < k"
    proof cases
      case 1
      then have "prefix w (a # p)" using prefix_run_stop[OF _ w(2) assms(2)] by blast
      then have "length w \<le> length (a # p)" by (rule prefix_length_le)
      with Cons.prems show ?thesis by simp
    next
      case 2
      with ih w(2) show ?thesis by (simp add: noRun_def)
    qed
  qed
qed

lemma noRun_Cons_other:
  assumes "\<not> C c" "noRun C k t" "0 < k"
  shows "noRun C k (c # t)"
  unfolding noRun_def
proof (intro allI impI)
  fix w assume w: "sublist w (c # t)" "list_all C w"
  then consider "prefix w (c # t)" | "sublist w t"
    by (auto simp: sublist_Cons_right)
  then show "length w < k"
  proof cases
    case 1
    with w(2) assms(1) have "w = []" by (cases w) auto
    with assms(3) show ?thesis by simp
  next
    case 2 with assms(2) w(2) show ?thesis by (simp add: noRun_def)
  qed
qed

lemma noRun_append_other:
  "list_all (\<lambda>c. \<not> C c) p \<Longrightarrow> noRun C k t \<Longrightarrow> 0 < k \<Longrightarrow> noRun C k (p @ t)"
  by (induction p) (auto intro: noRun_Cons_other)

lemma takeWhile_run: "list_all C (takeWhile C cs)"
  by (induction cs) auto

lemma dropWhile_head: "dropWhile C cs = [] \<or> \<not> C (hd (dropWhile C cs))"
  by (metis hd_dropWhile)

lemma dropWhile_stable: "t = [] \<or> \<not> C (hd t) \<Longrightarrow> dropWhile C t = t"
  by (cases t) auto

section \<open>What replaceRuns keeps and what it removes\<close>

lemma noRun_fixed: "noRun C k t \<Longrightarrow> replaceRuns C k r t = t"
proof (induction C k r t rule: replaceRuns.induct)
  case (1 C k r)
  then show ?case by simp
next
  case (2 C k r c cs)
  show ?case
  proof (cases "C c")
    case True
    have "sublist (c # takeWhile C cs) (c # cs)"
      by (metis prefix_imp_sublist Cons_prefix_Cons takeWhile_is_prefix)
    moreover have "list_all C (c # takeWhile C cs)" using True takeWhile_run by simp
    ultimately have "length (c # takeWhile C cs) < k"
      using "2.prems" unfolding noRun_def by blast
    then have small: "\<not> k \<le> Suc (length (takeWhile C cs))" by simp
    have "noRun C k (dropWhile C cs)"
      by (rule noRun_sublist[OF _ "2.prems"])
         (metis suffix_imp_sublist suffix_dropWhile sublist_Cons_right)
    then have "replaceRuns C k r (dropWhile C cs) = dropWhile C cs"
      using "2.IH"(1) True by simp
    with True small show ?thesis by simp
  next
    case False
    have "noRun C k cs" by (rule noRun_sublist[OF _ "2.prems"]) (simp add: sublist_Cons_right)
    with False "2.IH"(2) show ?thesis by simp
  qed
qed

lemma replaceRuns_set: "set (replaceRuns C k r t) \<subseteq> set t \<union> set r"
proof (induction C k r t rule: replaceRuns.induct)
  case (1 C k r) then show ?case by simp
next
  case (2 C k r c cs)
  have a: "set (takeWhile C cs) \<subseteq> set cs" by (auto dest: set_takeWhileD)
  have b: "set (dropWhile C cs) \<subseteq> set cs" by (auto dest: set_dropWhileD)
  show ?case using 2 a b by (auto split: if_splits)
qed

lemma replaceRuns_one_set: "set (replaceRuns C 1 r t) \<subseteq> {c \<in> set t. \<not> C c} \<union> set r"
proof (induction C "1::nat" r t rule: replaceRuns.induct)
  case (1 C r) then show ?case by simp
next
  case (2 C r c cs)
  have b: "set (dropWhile C cs) \<subseteq> set cs" by (auto dest: set_dropWhileD)
  show ?case using 2 b by (auto split: if_splits)
qed

lemma replaceRuns_head:
  "t = [] \<or> \<not> C (hd t) \<Longrightarrow> replaceRuns C k r t = [] \<or> \<not> C (hd (replaceRuns C k r t))"
  by (cases t) auto

lemma replaceRuns_noRun:
  "length r < k' \<Longrightarrow> k \<le> k' \<Longrightarrow> noRun C k' (replaceRuns C k r t)"
proof (induction C k r t rule: replaceRuns.induct)
  case (1 C k r)
  then show ?case by (simp add: noRun_Nil)
next
  case (2 C k r c cs)
  show ?case
  proof (cases "C c")
    case True
    let ?out = "replaceRuns C k r (dropWhile C cs)"
    have ih: "noRun C k' ?out" using 2 True by simp
    have hd: "?out = [] \<or> \<not> C (hd ?out)"
      by (rule replaceRuns_head) (rule dropWhile_head)
    show ?thesis
    proof (cases "k \<le> Suc (length (takeWhile C cs))")
      case True
      with \<open>C c\<close> show ?thesis using noRun_append[OF ih hd "2.prems"(1)] by simp
    next
      case False
      then have "length (c # takeWhile C cs) < k'" using "2.prems"(2) by simp
      from noRun_append[OF ih hd this] False \<open>C c\<close> show ?thesis by simp
    qed
  next
    case False
    with 2 show ?thesis by (auto intro: noRun_Cons_other)
  qed
qed

lemma replaceRuns_prefix_other:
  "prefix w (replaceRuns D k r t) \<Longrightarrow> list_all C w \<Longrightarrow> (\<And>c. D c \<Longrightarrow> \<not> C c) \<Longrightarrow> r \<noteq> [] \<Longrightarrow>
     \<not> C (hd r) \<Longrightarrow> prefix w t"
proof (induction D k r t arbitrary: w rule: replaceRuns.induct)
  case (1 D k r)
  then show ?case by simp
next
  case (2 D k r c cs)
  show ?case
  proof (cases w)
    case Nil then show ?thesis by simp
  next
    case (Cons a w')
    show ?thesis
    proof (cases "D c")
      case True
      have "\<not> C (hd (replaceRuns D k r (c # cs)))"
        using True "2.prems"(3,4) "2.prems"(5) by (cases r) auto
      moreover have "hd (replaceRuns D k r (c # cs)) = a"
        using "2.prems"(1) Cons by (cases "replaceRuns D k r (c # cs)") auto
      ultimately show ?thesis using "2.prems"(2) Cons by simp
    next
      case False
      then have "prefix w' (replaceRuns D k r cs)" "a = c" using "2.prems"(1) Cons by auto
      moreover have "list_all C w'" using "2.prems"(2) Cons by simp
      ultimately have "prefix w' cs" using "2.IH"(2)[OF False] "2.prems"(3,4,5) by blast
      with \<open>a = c\<close> Cons show ?thesis by simp
    qed
  qed
qed

lemma replaceRuns_keeps_noRun:
  "(\<And>c. D c \<Longrightarrow> \<not> C c) \<Longrightarrow> r \<noteq> [] \<Longrightarrow> list_all (\<lambda>c. \<not> C c) r \<Longrightarrow> 0 < k' \<Longrightarrow>
     noRun C k' t \<Longrightarrow> noRun C k' (replaceRuns D k r t)"
proof (induction D k r t rule: replaceRuns.induct)
  case (1 D k r)
  then show ?case by simp
next
  case (2 D k r c cs)
  have hdr: "\<not> C (hd r)" using "2.prems"(2,3) by (cases r) auto
  show ?case
  proof (cases "D c")
    case True
    have "noRun C k' (dropWhile D cs)"
      by (rule noRun_sublist[OF _ "2.prems"(5)])
         (metis suffix_imp_sublist suffix_dropWhile sublist_Cons_right)
    then have ih: "noRun C k' (replaceRuns D k r (dropWhile D cs))"
      using "2.IH"(1)[OF True] "2.prems"(1-4) by blast
    have other: "list_all (\<lambda>c. \<not> C c) (c # takeWhile D cs)"
      using True "2.prems"(1) takeWhile_run[of D cs] by (auto simp: list_all_iff)
    have a: "noRun C k' (r @ replaceRuns D k r (dropWhile D cs))"
      by (rule noRun_append_other[OF "2.prems"(3) ih "2.prems"(4)])
    have b: "noRun C k' ((c # takeWhile D cs) @ replaceRuns D k r (dropWhile D cs))"
      by (rule noRun_append_other[OF other ih "2.prems"(4)])
    from a b True show ?thesis by simp
  next
    case False
    have "noRun C k' cs" by (rule noRun_sublist[OF _ "2.prems"(5)]) (simp add: sublist_Cons_right)
    then have ih: "noRun C k' (replaceRuns D k r cs)"
      using "2.IH"(2)[OF False] "2.prems"(1-4) by blast
    have "noRun C k' (c # replaceRuns D k r cs)"
      unfolding noRun_def
    proof (intro allI impI)
      fix w assume w: "sublist w (c # replaceRuns D k r cs)" "list_all C w"
      then consider "prefix w (c # replaceRuns D k r cs)" | "sublist w (replaceRuns D k r cs)"
        by (auto simp: sublist_Cons_right)
      then show "length w < k'"
      proof cases
        case 2 with ih w(2) show ?thesis by (simp add: noRun_def)
      next
        case 1
        show ?thesis
        proof (cases w)
          case Nil with "2.prems"(4) show ?thesis by simp
        next
          case (Cons a w')
          with 1 w(2) have "a = c" and p: "prefix w' (replaceRuns D k r cs)" and l: "list_all C w'"
            by auto
          have "prefix w' cs"
            by (rule replaceRuns_prefix_other[OF p l "2.prems"(1) "2.prems"(2) hdr])
          then have "sublist w (c # cs)" using Cons \<open>a = c\<close> by (simp add: sublist_Cons_right)
          with "2.prems"(5) w(2) show ?thesis by (simp add: noRun_def)
        qed
      qed
    qed
    with False show ?thesis by simp
  qed
qed

section \<open>normalizeText is idempotent\<close>

lemma collapseBlanks_fixed:
  assumes "noRun isBlank 2 t" "NBSP \<notin> set t"
  shows "collapseBlanks t = t"
  using assms unfolding collapseBlanks_def
proof (induction t rule: length_induct)
  case (1 t)
  show ?case
  proof (cases t)
    case Nil then show ?thesis by simp
  next
    case (Cons c cs)
    have tl: "noRun isBlank 2 cs"
      by (rule noRun_sublist[OF _ "1.prems"(1)]) (simp add: Cons sublist_Cons_right)
    have ih: "replaceRuns isBlank 1 [SP] cs = cs" using 1 Cons tl by simp
    show ?thesis
    proof (cases "isBlank c")
      case False with ih Cons show ?thesis by simp
    next
      case True
      have "c = SP" using True "1.prems"(2) Cons by (auto simp: isBlank_def)
      have "cs = [] \<or> \<not> isBlank (hd cs)"
      proof (rule ccontr)
        assume "\<not> ?thesis"
        then obtain d ds where "cs = d # ds" "isBlank d" by (cases cs) auto
        then have "sublist [c, d] t" "list_all isBlank [c, d]"
          using Cons True by (auto simp: sublist_Cons_right)
        with "1.prems"(1) show False unfolding noRun_def by fastforce
      qed
      then have "takeWhile isBlank cs = []" "dropWhile isBlank cs = cs" by (cases cs; simp)+
      with True \<open>c = SP\<close> ih Cons show ?thesis by simp
    qed
  qed
qed

lemma tidy_sublist: "tidy t \<Longrightarrow> sublist t' t \<Longrightarrow> tidy t'"
  unfolding tidy_def using noRun_sublist set_mono_sublist by blast

lemma trim_sublist: "sublist (trim t) t"
proof -
  have "prefix (trim t) (dropWhile isSpace t)"
    unfolding trim_def by (metis suffix_dropWhile suffix_to_prefix rev_rev_ident)
  moreover have "suffix (dropWhile isSpace t) t" by (rule suffix_dropWhile)
  ultimately show ?thesis
    by (meson prefix_imp_sublist suffix_imp_sublist sublist_order.order_trans)
qed

lemma trim_trim: "trim (trim t) = trim t"
proof -
  let ?u = "dropWhile isSpace t"
  let ?v = "rev (dropWhile isSpace (rev ?u))"
  have pre: "prefix ?v ?u" by (metis suffix_dropWhile suffix_to_prefix rev_rev_ident)
  have "?v = [] \<or> \<not> isSpace (hd ?v)"
  proof (cases ?v)
    case Nil then show ?thesis by simp
  next
    case (Cons a w)
    with pre obtain z where "?u = a # z" by (cases ?u) auto
    then have "\<not> isSpace a" by (metis hd_dropWhile list.sel(1) list.distinct(1))
    with Cons show ?thesis by simp
  qed
  then have a: "dropWhile isSpace ?v = ?v" by (rule dropWhile_stable)
  have b: "dropWhile isSpace (rev ?v) = rev ?v"
    by (simp add: dropWhile_stable dropWhile_head)
  show ?thesis unfolding trim_def using a b by simp
qed

lemma tidy_steps: "tidy (collapseNewlines (collapseBlanks (tabsToSpaces (stripCR s))))"
proof -
  let ?a = "tabsToSpaces (stripCR s)"
  let ?b = "collapseBlanks ?a"
  let ?c = "collapseNewlines ?b"
  have a: "CR \<notin> set ?a" "TAB \<notin> set ?a" by (auto simp: tabsToSpaces_def stripCR_def)
  have bset: "x = SP \<or> x \<in> set ?a" if "x \<in> set ?b" for x
    using that replaceRuns_set[of isBlank 1 "[SP]" ?a] unfolding collapseBlanks_def by auto
  have cset: "x = NL \<or> x \<in> set ?b" if "x \<in> set ?c" for x
    using that replaceRuns_set[of "\<lambda>c. c = NL" 3 "[NL, NL]" ?b]
    unfolding collapseNewlines_def by auto
  have nb: "NBSP \<notin> set ?b"
    unfolding collapseBlanks_def using replaceRuns_one_set[of isBlank "[SP]" ?a]
    by (auto simp: isBlank_def)
  have b: "CR \<notin> set ?b" "TAB \<notin> set ?b" using a bset by fastforce+
  have c: "CR \<notin> set ?c" "TAB \<notin> set ?c" "NBSP \<notin> set ?c" using b nb cset by fastforce+
  have rb: "noRun isBlank 2 ?b" unfolding collapseBlanks_def by (rule replaceRuns_noRun) simp_all
  have rc: "noRun isBlank 2 ?c" unfolding collapseNewlines_def
    by (rule replaceRuns_keeps_noRun[OF _ _ _ _ rb]) (simp_all add: isBlank_def)
  have rn: "noRun (\<lambda>c. c = NL) 3 ?c"
    unfolding collapseNewlines_def by (rule replaceRuns_noRun) simp_all
  show ?thesis unfolding tidy_def using c rc rn by simp
qed

lemma tidy_fixed:
  assumes "tidy t"
  shows "collapseNewlines (collapseBlanks (tabsToSpaces (stripCR t))) = t"
proof -
  have 1: "stripCR t = t" using assms by (auto simp: tidy_def stripCR_def filter_id_conv)
  have 2: "tabsToSpaces t = t" using assms by (auto simp: tidy_def tabsToSpaces_def intro: map_idI)
  have 3: "collapseBlanks t = t" using assms by (simp add: tidy_def collapseBlanks_fixed)
  have 4: "collapseNewlines t = t"
    using assms by (simp add: tidy_def collapseNewlines_def noRun_fixed)
  show ?thesis by (simp add: 1 2 3 4)
qed

text \<open>
  C10.  Text normalization is idempotent: normalizing a normalized text changes nothing,
  for every input string.
\<close>

theorem normalizeText_idempotent: "normalizeText (normalizeText s) = normalizeText s"
proof -
  let ?y = "collapseNewlines (collapseBlanks (tabsToSpaces (stripCR s)))"
  have "tidy (trim ?y)" using tidy_steps trim_sublist by (rule tidy_sublist)
  then show ?thesis unfolding normalizeText_def by (simp add: tidy_fixed trim_trim)
qed

section \<open>chunkBlocks keeps to its ceiling\<close>

lemma slice_take: "0 \<le> b \<Longrightarrow> slice xs 0 b = take (nat b) xs"
  by (auto simp: slice_def Let_def min_def)

lemma slice_window:
  "0 \<le> i \<Longrightarrow> 0 < r \<Longrightarrow> slice xs i (i + r) = take (nat r) (drop (nat i) xs)"
  by (auto simp: slice_def Let_def min_def)

lemma batches_Nil: "batches r [] = []"
  by (simp add: batches.simps)

lemma concat_batches: "0 < r \<Longrightarrow> concat (batches r xs) = xs"
proof (induction r xs rule: batches.induct)
  case (1 r xs)
  then show ?case by (subst batches.simps) auto
qed

lemma batches_nonempty: "[] \<notin> set (batches r xs)"
proof (induction r xs rule: batches.induct)
  case (1 r xs)
  then show ?case by (subst batches.simps) auto
qed

lemma length_batches: "0 < r \<Longrightarrow> length (batches r xs) * r < length xs + r"
proof (induction r xs rule: batches.induct)
  case (1 r xs)
  show ?case
  proof (cases "xs = []")
    case True then show ?thesis using 1 by (simp add: batches_Nil)
  next
    case False
    then have ih: "length (batches r (drop r xs)) * r < length (drop r xs) + r" using 1 by simp
    have "batches r xs = take r xs # batches r (drop r xs)" using False 1(2) by (subst batches.simps) simp
    then have len: "length (batches r xs) * r = r + length (batches r (drop r xs)) * r" by simp
    show ?thesis
    proof (cases "r \<le> length xs")
      case True
      with ih len show ?thesis by simp
    next
      case False
      then have "batches r (drop r xs) = []" by (simp add: batches_Nil)
      with len have "length (batches r xs) * r = r" by simp
      moreover have "0 < length xs" using \<open>xs \<noteq> []\<close> by simp
      ultimately show ?thesis by linarith
    qed
  qed
qed

lemma reduceLoop_batches:
  "0 < ratio \<Longrightarrow> 0 \<le> i \<Longrightarrow>
   reduceLoop chunks ratio i reduced =
     Some (reduced @ map (join [NL, NL]) (batches (nat ratio) (drop (nat i) chunks)))"
proof (induction "length chunks - nat i" arbitrary: i reduced rule: less_induct)
  case less
  show ?case
  proof (cases "i < int (length chunks)")
    case False
    then have "drop (nat i) chunks = []" by simp
    with False show ?thesis by (subst reduceLoop.simps) (simp add: batches_Nil)
  next
    case True
    have step: "reduceLoop chunks ratio (i + ratio) (reduced @ [join [NL, NL] (slice chunks i (i + ratio))])
      = Some ((reduced @ [join [NL, NL] (slice chunks i (i + ratio))]) @
          map (join [NL, NL]) (batches (nat ratio) (drop (nat (i + ratio)) chunks)))"
      using less.prems True by (intro less.hyps) auto
    have ne: "drop (nat i) chunks \<noteq> []" using True less.prems by simp
    have b: "batches (nat ratio) (drop (nat i) chunks) =
      take (nat ratio) (drop (nat i) chunks) # batches (nat ratio) (drop (nat (i + ratio)) chunks)"
      using ne less.prems by (subst batches.simps) (simp add: nat_add_distrib add.commute)
    show ?thesis
      using True step b less.prems by (subst reduceLoop.simps) (simp add: slice_window)
  qed
qed

lemma ceilDiv_bound:
  assumes "0 < m" "m < n"
  shows "0 < ceilDiv n m" "n \<le> ceilDiv n m * m"
proof -
  have "(- n) div m * m + (- n) mod m = - n" by simp
  moreover have "0 \<le> (- n) mod m" using assms(1) by simp
  ultimately have "(- n) div m * m \<le> - n" by linarith
  then show "n \<le> ceilDiv n m * m" unfolding ceilDiv_def by simp
  with assms show "0 < ceilDiv n m" by (smt (verit) mult_nonpos_nonneg)
qed


lemma batches_count:
  assumes "0 < m" "m < int (length xs)"
  shows "int (length (batches (nat (ceilDiv (int (length xs)) m)) xs)) \<le> m"
proof -
  let ?r = "ceilDiv (int (length xs)) m"
  let ?g = "length (batches (nat ?r) xs)"
  have r: "0 < ?r" "int (length xs) \<le> ?r * m" using ceilDiv_bound[OF assms] by auto
  have "?g * nat ?r < length xs + nat ?r" using r(1) by (intro length_batches) simp
  then have "int (?g * nat ?r) < int (length xs + nat ?r)" by (simp only: of_nat_less_iff)
  then have "int ?g * ?r < int (length xs) + ?r" using r(1) by simp
  also have "\<dots> \<le> ?r * m + ?r" using r(2) by simp
  also have "\<dots> = (m + 1) * ?r" by (simp add: algebra_simps)
  finally have "int ?g * ?r < (m + 1) * ?r" .
  then have "int ?g < m + 1" using r(1) by (simp only: mult_less_cancel_right_pos)
  then show ?thesis by simp
qed



text \<open>
  C6.  For every sequence of blocks and every positive \<open>maxChunks\<close>, \<open>chunkBlocks\<close>
  returns, and returns at most \<open>maxChunks\<close> chunks.  When there are more raw chunks than
  \<open>maxChunks\<close>, the second loop groups them into consecutive batches of
  \<open>ratio = ceil(rawCount / maxChunks)\<close>; there are at most \<open>maxChunks\<close> batches, they hold
  every raw chunk, and the final \<open>slice(0, maxChunks)\<close> removes none of them.
\<close>

theorem chunkBlocks_ceiling:
  assumes "0 < maxChunks"
  shows "\<exists>chunks. chunkBlocks blocks maxChunks = Some chunks \<and> int (length chunks) \<le> maxChunks \<and>
           (let raw = packBlocks [] [] 0 blocks;
                ratio = ceilDiv (int (length raw)) maxChunks;
                groups = batches (nat ratio) raw
            in if int (length raw) \<le> maxChunks then chunks = raw
               else reduceLoop raw ratio 0 [] = Some (map (join [NL, NL]) groups) \<and>
                    int (length groups) \<le> maxChunks \<and> concat groups = raw \<and>
                    chunks = map (join [NL, NL]) groups)"
proof -
  let ?raw = "packBlocks [] [] 0 blocks"
  let ?ratio = "ceilDiv (int (length ?raw)) maxChunks"
  let ?groups = "batches (nat ?ratio) ?raw"
  show ?thesis
  proof (cases "int (length ?raw) \<le> maxChunks")
    case True
    then show ?thesis by (simp add: chunkBlocks_def Let_def)
  next
    case False
    then have big: "maxChunks < int (length ?raw)" by simp
    have r: "0 < ?ratio" using ceilDiv_bound(1)[OF assms big] .
    have loop: "reduceLoop ?raw ?ratio 0 [] = Some (map (join [NL, NL]) ?groups)"
      using reduceLoop_batches[OF r, of 0 ?raw "[]"] by simp
    have cnt: "int (length ?groups) \<le> maxChunks" using batches_count[OF assms big] .
    have cat: "concat ?groups = ?raw" using r by (intro concat_batches) simp
    have out: "chunkBlocks blocks maxChunks = Some (map (join [NL, NL]) ?groups)"
      using False assms loop cnt by (simp add: chunkBlocks_def Let_def slice_take)
    show ?thesis using False loop cnt cat out by (simp add: Let_def)
  qed
qed

theorem chunkBlocks_ceiling_witness:
  "0 < (2::int) \<and>
   chunkBlocks (replicate 3 (join [SP] (replicate 140 (js ''a'')))) 2 =
     Some [join [SP] (replicate 140 (js ''a'')) @ [NL, NL] @ join [SP] (replicate 140 (js ''a'')),
           join [SP] (replicate 140 (js ''a''))]"
proof -
  let ?B = "join [SP] (replicate 140 (js ''a''))"
  have raw: "packBlocks [] [] 0 (replicate 3 ?B) = [?B, ?B, ?B]" by code_simp
  have ratio: "ceilDiv 3 2 = 2" by (simp add: ceilDiv_def)
  have groups: "batches 2 [?B, ?B, ?B] = [[?B, ?B], [?B]]" by code_simp
  from chunkBlocks_ceiling[of 2 "replicate 3 ?B"] obtain chunks where
    c: "chunkBlocks (replicate 3 ?B) 2 = Some chunks" and
    g: "chunks = map (join [NL, NL]) (batches (nat (ceilDiv 3 2)) [?B, ?B, ?B])"
    unfolding raw by (auto simp: Let_def)
  show ?thesis using c g unfolding ratio by (simp add: groups)
qed

section \<open>extractSteps\<close>

lemma stepOfLine_long: "s \<in> set (stepOfLine line) \<Longrightarrow> 5 \<le> length s"
  by (auto simp: stepOfLine_def Let_def split: option.splits if_splits)

lemma stepOfLine_valve: "stepOfLine (js ''1. Open the valve'') = [js ''Open the valve'']"
  by code_simp

text \<open>
  C9 (amended).  \<open>extractSteps\<close> returns the first 8 qualifying line remainders in the order
  of the lines, and none of them is shorter than 5 characters.  A line
  \<open>1. Open the valve\<close> yields the step \<open>Open the valve\<close>, and the extracted steps contain
  it when fewer than 8 qualifying lines stand before that line.
\<close>

theorem extractSteps_first_eight:
  "length (extractSteps text) \<le> 8 \<and>
   (\<forall>s \<in> set (extractSteps text). 5 \<le> length s) \<and>
   extractSteps text = take 8 (concat (map stepOfLine (splitEach (\<lambda>c. c = NL) [] text))) \<and>
   (\<forall>i. i < length (splitEach (\<lambda>c. c = NL) [] text) \<and>
        splitEach (\<lambda>c. c = NL) [] text ! i = js ''1. Open the valve'' \<and>
        length (concat (map stepOfLine (take i (splitEach (\<lambda>c. c = NL) [] text)))) < 8
        \<longrightarrow> js ''Open the valve'' \<in> set (extractSteps text))"
proof -
  let ?lines = "splitEach (\<lambda>c. c = NL) [] text"
  let ?found = "concat (map stepOfLine ?lines)"
  have eq: "extractSteps text = take 8 ?found"
    by (simp add: extractSteps_def slice_take)
  have len: "length (extractSteps text) \<le> 8" by (simp add: eq)
  have long: "\<forall>s \<in> set (extractSteps text). 5 \<le> length s"
  proof
    fix s assume "s \<in> set (extractSteps text)"
    then have "s \<in> set ?found" unfolding eq by (rule in_set_takeD)
    then show "5 \<le> length s" by (auto dest: stepOfLine_long)
  qed
  have valve: "js ''Open the valve'' \<in> set (extractSteps text)"
    if i: "i < length ?lines" and at: "?lines ! i = js ''1. Open the valve''"
      and before: "length (concat (map stepOfLine (take i ?lines))) < 8" for i
  proof -
    let ?pre = "concat (map stepOfLine (take i ?lines))"
    have "?lines = take i ?lines @ ?lines ! i # drop (Suc i) ?lines"
      using i by (rule id_take_nth_drop)
    then have "?found = concat (map stepOfLine (take i ?lines @ ?lines ! i # drop (Suc i) ?lines))"
      by simp
    then have found: "?found = ?pre @ js ''Open the valve'' # concat (map stepOfLine (drop (Suc i) ?lines))"
      by (simp add: at stepOfLine_valve)
    have "take 8 ?found ! length ?pre = js ''Open the valve''"
      using before by (subst found) (simp add: nth_append)
    moreover have "length ?pre < length (take 8 ?found)"
      using before by (subst found) simp
    ultimately show ?thesis unfolding eq by (metis nth_mem)
  qed
  from eq len long valve show ?thesis by blast
qed

theorem extractSteps_first_eight_witness:
  "length (extractSteps (js ''Start the pump'' @ [NL] @ js ''1. Open the valve'')) \<le> 8 \<and>
   extractSteps (js ''Start the pump'' @ [NL] @ js ''1. Open the valve'') = [js ''Open the valve''] \<and>
   js ''Open the valve'' \<in> set (extractSteps (js ''Start the pump'' @ [NL] @ js ''1. Open the valve''))"
proof -
  let ?T = "js ''Start the pump'' @ [NL] @ js ''1. Open the valve''"
  have lines: "splitEach (\<lambda>c. c = NL) [] ?T = [js ''Start the pump'', js ''1. Open the valve'']"
    by code_simp
  have none: "stepOfLine (js ''Start the pump'') = []" by code_simp
  have one: "stepOfLine (js ''1. Open the valve'') = [js ''Open the valve'']" by code_simp
  from extractSteps_first_eight[of ?T]
  have "length (extractSteps ?T) \<le> 8"
    and "extractSteps ?T = take 8 (concat (map stepOfLine (splitEach (\<lambda>c. c = NL) [] ?T)))"
    and "1 < length (splitEach (\<lambda>c. c = NL) [] ?T) \<and>
        splitEach (\<lambda>c. c = NL) [] ?T ! 1 = js ''1. Open the valve'' \<and>
        length (concat (map stepOfLine (take 1 (splitEach (\<lambda>c. c = NL) [] ?T)))) < 8
        \<longrightarrow> js ''Open the valve'' \<in> set (extractSteps ?T)"
    by blast+
  then show ?thesis unfolding lines by (simp add: none one)
qed

text \<open>
  The line \<open>1. Open the valve\<close> behind eight other steps: the cap of 8 leaves it out.
\<close>

theorem extractSteps_valve_counterexample:
  "js ''1. Open the valve'' \<in> set (splitEach (\<lambda>c. c = NL) []
      (join [NL] (replicate 8 (js ''- Check seal'') @ [js ''1. Open the valve'']))) \<and>
   js ''Open the valve'' \<notin> set (extractSteps
      (join [NL] (replicate 8 (js ''- Check seal'') @ [js ''1. Open the valve''])))"
  by code_simp

section \<open>The ranking of the keywords\<close>

lemma uniq_snoc: "uniq (ts @ [t]) = (if t \<in> set ts then uniq ts else uniq ts @ [t])"
  by (simp add: uniq_def)

lemma set_uniq: "set (uniq ts) = set ts"
  by (simp add: uniq_def)

lemma distinct_uniq: "distinct (uniq ts)"
  by (simp add: uniq_def)

lemma bump_present:
  "distinct ks \<Longrightarrow> t \<in> set ks \<Longrightarrow>
   bump (map (\<lambda>k. (k, c k)) ks) t = map (\<lambda>k. (k, if k = t then c k + 1 else c k)) ks"
  by (induction ks) auto

lemma bump_absent:
  "t \<notin> set ks \<Longrightarrow> bump (map (\<lambda>k. (k, c k)) ks) t = map (\<lambda>k. (k, c k)) ks @ [(t, 1)]"
  by (induction ks) auto

lemma freq_table:
  "foldl bump [] ts = map (\<lambda>k. (k, count_list ts k)) (uniq ts)"
proof (induction ts rule: rev_induct)
  case Nil
  show ?case by (simp add: uniq_def)
next
  case (snoc t ts)
  show ?case
  proof (cases "t \<in> set ts")
    case True
    then show ?thesis
      using snoc bump_present[of "uniq ts" t "count_list ts"]
      by (simp add: uniq_snoc set_uniq distinct_uniq)
  next
    case False
    then have "count_list ts t = 0" by (simp add: count_list_0_iff)
    with False show ?thesis
      using snoc bump_absent[of t "uniq ts" "count_list ts"]
      by (auto simp: uniq_snoc set_uniq)
  qed
qed

lemma firstIndex_snoc:
  "k \<in> set ts \<Longrightarrow> firstIndex (ts @ [t]) k = firstIndex ts k"
  by (simp add: firstIndex_def takeWhile_append1)


lemma firstIndex_less: "k \<in> set ts \<Longrightarrow> firstIndex ts k < length ts"
  by (induction ts) (auto simp: firstIndex_def)

lemma firstIndex_new: "t \<notin> set ts \<Longrightarrow> firstIndex (ts @ [t]) t = length ts"
  by (induction ts) (auto simp: firstIndex_def)

lemma uniq_first_order: "sorted_wrt (\<lambda>a b. firstIndex ts a < firstIndex ts b) (uniq ts)"
proof (induction ts rule: rev_induct)
  case Nil
  show ?case by (simp add: uniq_def)
next
  case (snoc t ts)
  have keep: "sorted_wrt (\<lambda>a b. firstIndex (ts @ [t]) a < firstIndex (ts @ [t]) b) (uniq ts)"
    by (rule sorted_wrt_mono_rel[OF _ snoc]) (simp add: set_uniq firstIndex_snoc)
  show ?case
  proof (cases "t \<in> set ts")
    case True
    with keep show ?thesis by (simp add: uniq_snoc)
  next
    case False
    then have "\<forall>k \<in> set (uniq ts). firstIndex (ts @ [t]) k < firstIndex (ts @ [t]) t"
      by (simp add: set_uniq firstIndex_snoc firstIndex_new firstIndex_less)
    with keep False show ?thesis by (simp add: uniq_snoc sorted_wrt_append)
  qed
qed

lemma sorted_groups_lex:
  "sorted (map f ys) \<Longrightarrow> (\<And>k. sorted_wrt Q (filter (\<lambda>y. f y = k) ys)) \<Longrightarrow>
   sorted_wrt (\<lambda>a b. f a < f b \<or> (f a = f b \<and> Q a b)) ys"
proof (induction ys)
  case Nil
  show ?case by simp
next
  case (Cons a ys)
  have tail: "sorted_wrt Q (filter (\<lambda>y. f y = k) ys)" for k
    using Cons.prems(2)[of k] by (cases "f a = k") auto
  have ih: "sorted_wrt (\<lambda>a b. f a < f b \<or> (f a = f b \<and> Q a b)) ys"
    using Cons.IH Cons.prems(1) tail by simp
  have "f a < f b \<or> (f a = f b \<and> Q a b)" if b: "b \<in> set ys" for b
  proof (cases "f a = f b")
    case True
    then have "b \<in> set (filter (\<lambda>y. f y = f a) ys)" using b by simp
    with Cons.prems(2)[of "f a"] have "Q a b" by simp
    with True show ?thesis by simp
  next
    case False
    moreover have "f a \<le> f b" using Cons.prems(1) b by simp
    ultimately show ?thesis by simp
  qed
  with ih show ?case by simp
qed

lemma sort_key_lex:
  fixes f :: "'a \<Rightarrow> int"
  assumes "sorted_wrt Q xs"
  shows "sorted_wrt (\<lambda>a b. f a < f b \<or> (f a = f b \<and> Q a b)) (sort_key f xs)"
proof (rule sorted_groups_lex)
  show "sorted (map f (sort_key f xs))" by simp
next
  fix k
  have "filter (\<lambda>y. f y = k) (sort_key f xs) = filter (\<lambda>y. f y = k) xs"
    by (rule sort_key_stable)
  then show "sorted_wrt Q (filter (\<lambda>y. f y = k) (sort_key f xs))"
    using assms by (simp add: sorted_wrt_filter)
qed

lemma topKeywords_ranked:
  assumes "0 \<le> limit"
  shows "sorted_wrt (ranksBefore (tokenize lower text langMode)) (topKeywords lower text limit langMode)"
    and "distinct (topKeywords lower text limit langMode)"
    and "set (topKeywords lower text limit langMode) \<subseteq> set (tokenize lower text langMode)"
    and "int (length (topKeywords lower text limit langMode)) \<le> limit"
proof -
  let ?toks = "tokenize lower text langMode"
  let ?freq = "map (\<lambda>k. (k, count_list ?toks k)) (uniq ?toks)"
  let ?key = "\<lambda>(k, n). - int n"
  let ?sorted = "sort_key ?key ?freq"
  have top: "topKeywords lower text limit langMode = map fst (take (nat limit) ?sorted)"
    using assms by (simp add: topKeywords_def freq_table slice_take)
  have first: "sorted_wrt (\<lambda>a b. firstIndex ?toks (fst a) < firstIndex ?toks (fst b)) ?freq"
    using uniq_first_order[of ?toks] by (simp add: sorted_wrt_map)
  have lex: "sorted_wrt (\<lambda>a b. ?key a < ?key b \<or>
      (?key a = ?key b \<and> firstIndex ?toks (fst a) < firstIndex ?toks (fst b))) ?sorted"
    using first by (rule sort_key_lex)
  have "sorted_wrt (\<lambda>a b. ranksBefore ?toks (fst a) (fst b)) ?sorted"
  proof (rule sorted_wrt_mono_rel[OF _ lex])
    fix a b assume "a \<in> set ?sorted" "b \<in> set ?sorted"
    then have "snd a = count_list ?toks (fst a)" "snd b = count_list ?toks (fst b)" by auto
    moreover assume "?key a < ?key b \<or>
      (?key a = ?key b \<and> firstIndex ?toks (fst a) < firstIndex ?toks (fst b))"
    ultimately show "ranksBefore ?toks (fst a) (fst b)"
      by (cases a; cases b) (auto simp: ranksBefore_def)
  qed
  then have "sorted_wrt (\<lambda>a b. ranksBefore ?toks (fst a) (fst b)) (take (nat limit) ?sorted)"
    by (rule sorted_wrt_take)
  then show "sorted_wrt (ranksBefore ?toks) (topKeywords lower text limit langMode)"
    by (simp add: top sorted_wrt_map)
  have keys: "map fst ?freq = uniq ?toks" by (simp add: comp_def)
  then have "distinct (map fst ?freq)" by (simp only: distinct_uniq)
  then have "distinct ?freq" "inj_on fst (set ?freq)" by (simp_all only: distinct_map)
  then have "distinct (map fst ?sorted)" by (simp add: distinct_map)
  then show "distinct (topKeywords lower text limit langMode)"
    unfolding top take_map[symmetric] by (rule distinct_take)
  have "set (map fst ?sorted) = set ?toks" using keys by (simp add: set_uniq image_image)
  then show "set (topKeywords lower text limit langMode) \<subseteq> set (tokenize lower text langMode)"
    unfolding top take_map[symmetric] using set_take_subset by fastforce
  show "int (length (topKeywords lower text limit langMode)) \<le> limit" using assms by (simp add: top)
qed

section \<open>Compiled items: keywords and score\<close>

lemma tokenize_no_stopwords:
  "set (tokenize lower text langMode) \<inter> set (usedStopwords lower text langMode) = {}"
  by (auto simp: tokenize_def usedStopwords_def zhTokens_def enTokens_def Let_def)

lemma compileItem_fields:
  "skill_id (compileItem lower langMode chunk idx) = skillId idx"
  "content (compileItem lower langMode chunk idx) = chunk"
  "item_keywords (compileItem lower langMode chunk idx) = topKeywords lower chunk 12 langMode"
  "steps (compileItem lower langMode chunk idx) = extractSteps chunk"
  "conditions (compileItem lower langMode chunk idx) = extractConditions chunk"
  "baseScore (compileItem lower langMode chunk idx) =
     estimateRoutingScore (topKeywords lower chunk 12 langMode) (extractSteps chunk)
       (extractConditions chunk) (slice (topKeywords lower chunk 12 langMode) 0 5)"
  by (simp_all add: compileItem_def Let_def)

lemma compileItems_member:
  "item \<in> set (compileItems lower langMode chunks) \<Longrightarrow>
   \<exists>idx. idx < length chunks \<and> item = compileItem lower langMode (chunks ! idx) idx"
  by (auto simp: compileItems_def in_set_enumerate_eq)

lemma compileItems_nth:
  "i < length chunks \<Longrightarrow> compileItems lower langMode chunks ! i = compileItem lower langMode (chunks ! i) i"
  by (simp add: compileItems_def nth_enumerate_eq)

lemma length_compileItems: "length (compileItems lower langMode chunks) = length chunks"
  by (simp add: compileItems_def)

text \<open>
  C2.  For every compiled item, the keywords are at most 12, they are distinct tokens of
  the item's chunk, none of them is a stop word of the language whose tokens were taken
  (of the combined list when no language was selected), and they stand in the order of
  descending frequency, tokens of equal frequency in the order of their first appearance.
\<close>

theorem keywords_ranked:
  "\<forall>item \<in> set (compileItems lower langMode chunks).
     length (item_keywords item) \<le> 12 \<and>
     distinct (item_keywords item) \<and>
     set (item_keywords item) \<subseteq> set (tokenize lower (content item) langMode) \<and>
     set (item_keywords item) \<inter> set (usedStopwords lower (content item) langMode) = {} \<and>
     sorted_wrt (ranksBefore (tokenize lower (content item) langMode)) (item_keywords item)"
proof
  fix item assume "item \<in> set (compileItems lower langMode chunks)"
  then obtain idx where item: "item = compileItem lower langMode (chunks ! idx) idx"
    using compileItems_member by blast
  let ?chunk = "chunks ! idx"
  have kws: "item_keywords item = topKeywords lower ?chunk 12 langMode"
    and con: "content item = ?chunk"
    by (simp_all add: item compileItem_fields)
  have sub: "set (topKeywords lower ?chunk 12 langMode) \<subseteq> set (tokenize lower ?chunk langMode)"
    by (rule topKeywords_ranked(3)) simp
  have len: "int (length (topKeywords lower ?chunk 12 langMode)) \<le> 12"
    by (rule topKeywords_ranked(4)) simp
  have "set (topKeywords lower ?chunk 12 langMode) \<inter> set (usedStopwords lower ?chunk langMode) = {}"
    using sub tokenize_no_stopwords[of lower ?chunk langMode] by blast
  moreover have "distinct (topKeywords lower ?chunk 12 langMode)"
    by (rule topKeywords_ranked(2)) simp
  moreover have "sorted_wrt (ranksBefore (tokenize lower ?chunk langMode)) (topKeywords lower ?chunk 12 langMode)"
    by (rule topKeywords_ranked(1)) simp
  ultimately show "length (item_keywords item) \<le> 12 \<and>
     distinct (item_keywords item) \<and>
     set (item_keywords item) \<subseteq> set (tokenize lower (content item) langMode) \<and>
     set (item_keywords item) \<inter> set (usedStopwords lower (content item) langMode) = {} \<and>
     sorted_wrt (ranksBefore (tokenize lower (content item) langMode)) (item_keywords item)"
    using sub len unfolding kws con by simp
qed

theorem keywords_ranked_witness:
  "item_keywords (compileItem asciiLower Auto
      (js ''The valve Valve pump pump pump open the open valve xyz'') 0) =
     [js ''valve'', js ''pump'', js ''open'', js ''xyz''] \<and>
   distinct [js ''valve'', js ''pump'', js ''open'', js ''xyz''] \<and>
   set [js ''valve'', js ''pump'', js ''open'', js ''xyz''] \<inter>
     set (usedStopwords asciiLower
       (js ''The valve Valve pump pump pump open the open valve xyz'') Auto) = {} \<and>
   sorted_wrt (ranksBefore (tokenize asciiLower
       (js ''The valve Valve pump pump pump open the open valve xyz'') Auto))
     [js ''valve'', js ''pump'', js ''open'', js ''xyz'']"
proof -
  let ?chunk = "js ''The valve Valve pump pump pump open the open valve xyz''"
  let ?item = "compileItem asciiLower Auto ?chunk 0"
  have kws: "item_keywords ?item = [js ''valve'', js ''pump'', js ''open'', js ''xyz'']"
    by code_simp
  have con: "content ?item = ?chunk" by (simp add: compileItem_fields)
  have "?item \<in> set (compileItems asciiLower Auto [?chunk])"
    by (simp add: compileItems_def)
  with keywords_ranked[of asciiLower Auto "[?chunk]"]
  have "distinct (item_keywords ?item) \<and>
     set (item_keywords ?item) \<inter> set (usedStopwords asciiLower (content ?item) Auto) = {} \<and>
     sorted_wrt (ranksBefore (tokenize asciiLower (content ?item) Auto)) (item_keywords ?item)"
    by blast
  then show ?thesis unfolding con kws by (simp only: simp_thms)
qed

lemma estimate_is_spec:
  assumes "distinct kws"
  shows "estimateRoutingScore kws sts conds (slice kws 0 5) = routingScoreSpec kws sts conds"
proof -
  have probe: "slice kws 0 5 = take 5 kws" by (simp add: slice_take)
  have "filter (\<lambda>x. x \<in> set kws) (take 5 kws) = take 5 kws"
    by (auto simp: filter_id_conv dest: in_set_takeD)
  moreover have "set (take 5 kws) \<inter> set kws = set (take 5 kws)"
    using set_take_subset[of 5 kws] by blast
  moreover have "card (set (take 5 kws)) = length (take 5 kws)"
    using assms by (simp add: distinct_card)
  ultimately show ?thesis
    by (simp add: estimateRoutingScore_def routingScoreSpec_def probe Let_def clamp_def
        mult.commute del: length_take)
qed

text \<open>
  C3.  For every compiled item, \<open>baseScore\<close> is the score of the specification:
  \<open>clamp(overlapScore + densityScore + conditionBonus + stepBonus, 0, 100)\<close> with
  \<open>overlapScore = min(40, 8 * |probe \<inter> keywords|)\<close>,
  \<open>densityScore = min(25, round(25 * |keywords| / 12))\<close>,
  \<open>conditionBonus = min(20, 4 * |conditions|)\<close>, \<open>stepBonus = min(15, 3 * |steps|)\<close> and
  the probe the item's own top 5 keywords; it is 60 when the probe is empty, and always
  between 0 and 100.
\<close>

theorem baseScore_formula:
  "\<forall>item \<in> set (compileItems lower langMode chunks).
     baseScore item = routingScoreSpec (item_keywords item) (steps item) (conditions item) \<and>
     0 \<le> baseScore item \<and> baseScore item \<le> 100 \<and>
     (take 5 (item_keywords item) = [] \<longrightarrow> baseScore item = 60)"
proof
  fix item assume "item \<in> set (compileItems lower langMode chunks)"
  then obtain idx where item: "item = compileItem lower langMode (chunks ! idx) idx"
    using compileItems_member by blast
  let ?kws = "topKeywords lower (chunks ! idx) 12 langMode"
  have d: "distinct ?kws" by (rule topKeywords_ranked(2)) simp
  have eq: "baseScore item = routingScoreSpec (item_keywords item) (steps item) (conditions item)"
    unfolding item compileItem_fields by (rule estimate_is_spec[OF d])
  have cl: "0 \<le> clamp x 0 100 \<and> clamp x 0 100 \<le> 100" for x
    unfolding clamp_def by linarith
  have "0 \<le> routingScoreSpec k s c \<and> routingScoreSpec k s c \<le> 100" for k s c
    unfolding routingScoreSpec_def Let_def using cl by (cases "take 5 k = []") (simp_all only: if_True if_False, simp)
  moreover have "take 5 k = [] \<longrightarrow> routingScoreSpec k s c = 60" for k s c
    by (simp add: routingScoreSpec_def Let_def)
  ultimately show "baseScore item = routingScoreSpec (item_keywords item) (steps item) (conditions item) \<and>
     0 \<le> baseScore item \<and> baseScore item \<le> 100 \<and>
     (take 5 (item_keywords item) = [] \<longrightarrow> baseScore item = 60)"
    unfolding eq by blast
qed

theorem baseScore_formula_witness:
  "baseScore (compileItem asciiLower Auto
      (js ''1. Open the valve'' @ [NL] @ js ''if pressure exceeds limit then shut down'') 0) = 66 \<and>
   routingScoreSpec
     [js ''open'', js ''valve'', js ''pressure'', js ''exceeds'', js ''limit'', js ''shut'', js ''down'']
     [js ''Open the valve'']
     [js ''if pressure exceeds limit then'', js ''if pressure exceeds limit then shut down''] = 66 \<and>
   baseScore (compileItem asciiLower Auto (js ''?? !!'') 1) = 60"
proof -
  let ?a = "js ''1. Open the valve'' @ [NL] @ js ''if pressure exceeds limit then shut down''"
  let ?b = "js ''?? !!''"
  let ?A = "compileItem asciiLower Auto ?a 0"
  let ?B = "compileItem asciiLower Auto ?b 1"
  have k: "item_keywords ?A =
    [js ''open'', js ''valve'', js ''pressure'', js ''exceeds'', js ''limit'', js ''shut'', js ''down'']"
    by code_simp
  have s: "steps ?A = [js ''Open the valve'']" by code_simp
  have c: "conditions ?A =
    [js ''if pressure exceeds limit then'', js ''if pressure exceeds limit then shut down'']"
    by code_simp
  have v: "baseScore ?A = 66" by code_simp
  have e: "take 5 (item_keywords ?B) = []" by code_simp
  have "?A \<in> set (compileItems asciiLower Auto [?a, ?b])"
    and "?B \<in> set (compileItems asciiLower Auto [?a, ?b])"
    by (simp_all add: compileItems_def)
  with baseScore_formula[of asciiLower Auto "[?a, ?b]"]
  have "baseScore ?A = routingScoreSpec (item_keywords ?A) (steps ?A) (conditions ?A)"
    and "take 5 (item_keywords ?B) = [] \<longrightarrow> baseScore ?B = 60"
    by blast+
  then show ?thesis using v e unfolding k s c by simp
qed

section \<open>The ids of the items and the keys of the edges\<close>

lemma showNat_digits: "c \<in> set (showNat n) \<Longrightarrow> 48 \<le> c \<and> c \<le> 57"
proof (induction n rule: showNat.induct)
  case (1 n)
  then show ?case by (subst (asm) showNat.simps) (auto split: if_splits)
qed

lemma readNat_snoc: "readNat (s @ [c]) = 10 * readNat s + (c - 48)"
  by (simp add: readNat_def)

lemma readNat_showNat: "readNat (showNat n) = n"
proof (induction n rule: showNat.induct)
  case (1 n)
  show ?case
  proof (cases "n < 10")
    case True
    then show ?thesis by (subst showNat.simps) (simp add: readNat_def)
  next
    case False
    then have "readNat (showNat (n div 10)) = n div 10" using 1 by simp
    with False show ?thesis by (subst showNat.simps) (simp add: readNat_snoc)
  qed
qed

lemma readNat_zeros: "readNat (replicate k 48 @ s) = readNat s"
  by (induction k) (simp_all add: readNat_def)

lemma skillId_inj: "skillId i = skillId j \<Longrightarrow> i = j"
proof -
  assume "skillId i = skillId j"
  then have "padStart3 (showNat (i + 1)) = padStart3 (showNat (j + 1))"
    by (simp add: skillId_def)
  then have "readNat (padStart3 (showNat (i + 1))) = readNat (padStart3 (showNat (j + 1)))"
    by simp
  then show "i = j" by (simp add: padStart3_def readNat_zeros readNat_showNat)
qed

lemma skillId_no_gt: "62 \<notin> set (skillId i)"
  using showNat_digits[of 62 "i + 1"] by (auto simp: skillId_def padStart3_def js_def)

lemma key_split:
  assumes "62 \<notin> set a" "62 \<notin> set a'" "a @ js ''->'' @ b = a' @ js ''->'' @ b'"
  shows "a = a' \<and> b = b'"
proof -
  have k: "takeWhile (\<lambda>c. c \<noteq> 62) (x @ js ''->'' @ y) = x @ [45]" if "62 \<notin> set x" for x y
    using that by (induction x) (auto simp: js_def)
  have "a @ [45] = a' @ [45]" using k[OF assms(1), of b] k[OF assms(2), of b'] assms(3) by simp
  then have "a = a'" by simp
  with assms(3) show ?thesis by simp
qed

lemma mapSet_new: "k \<notin> fst ` set m \<Longrightarrow> mapSet m k v = m @ [(k, v)]"
  by (induction m) auto

lemma dedup_distinct:
  "distinct (map key ds) \<Longrightarrow>
   foldl (\<lambda>m d. mapSet m (key d) d) [] ds = map (\<lambda>d. (key d, d)) ds"
proof (induction ds rule: rev_induct)
  case Nil
  show ?case by simp
next
  case (snoc d ds)
  then have "key d \<notin> fst ` set (map (\<lambda>d. (key d, d)) ds)" by (auto simp: image_image)
  with snoc show ?case by (simp add: mapSet_new)
qed

lemma concat_if_filter:
  "concat (map (\<lambda>j. if P j then [f j] else []) ys) = map f (filter P ys)"
  by (induction ys) auto

lemma concat_product:
  "concat (map (\<lambda>i. concat (map (\<lambda>j. if P i j then [f i j] else []) ys)) xs) =
   map (\<lambda>(i, j). f i j) (filter (\<lambda>(i, j). P i j) (List.product xs ys))"
  by (induction xs) (simp_all add: concat_if_filter filter_map comp_def)

section \<open>jaccard\<close>

lemma uniq_inter: "length (filter (\<lambda>x. x \<in> set (uniq b)) (uniq a)) = card (set a \<inter> set b)"
proof -
  have "distinct (filter (\<lambda>x. x \<in> set b) (uniq a))" by (simp add: distinct_uniq)
  then have "length (filter (\<lambda>x. x \<in> set b) (uniq a)) = card (set (filter (\<lambda>x. x \<in> set b) (uniq a)))"
    by (simp only: distinct_card)
  also have "set (filter (\<lambda>x. x \<in> set b) (uniq a)) = set a \<inter> set b"
    by (auto simp: set_uniq)
  finally show ?thesis by (simp add: set_uniq)
qed

lemma length_uniq: "length (uniq a) = card (set a)"
  using distinct_card[OF distinct_uniq[of a]] by (simp add: set_uniq)

lemma jaccard_spec: "jaccard a b = jaccardSpec a b"
proof -
  let ?i = "card (set a \<inter> set b)"
  have un: "card (set a) + card (set b) - ?i = card (set a \<union> set b)"
    using card_Un_Int[of "set a" "set b"] by simp
  have z: "card (set a \<union> set b) = 0 \<longleftrightarrow> set a \<union> set b = {}" by simp
  show ?thesis
    unfolding jaccard_def jaccardSpec_def Let_def uniq_inter length_uniq un z
    by auto
qed

lemma jaccardSpec_sym: "jaccardSpec a b = jaccardSpec b a"
  by (simp add: jaccardSpec_def Int_commute Un_commute)

lemma jaccardSpec_le_1: "jaccardSpec a b \<le> 1"
proof -
  have "card (set a \<inter> set b) \<le> card (set a \<union> set b)"
    by (rule card_mono) auto
  moreover have "0 < card (set a \<union> set b)" if "set a \<union> set b \<noteq> {}"
    using that by (simp add: card_gt_0_iff)
  ultimately show ?thesis
    by (cases "set a \<union> set b = {}") (simp_all only: jaccardSpec_def if_True if_False, simp, simp add: divide_le_eq_1)
qed

lemma toFixed2_range:
  assumes "22 / 100 \<le> q" "q \<le> 1"
  shows "22 / 100 \<le> toFixed2 q" "toFixed2 q \<le> 1"
proof -
  have "(22::int) \<le> \<lfloor>q * 100 + 1 / 2\<rfloor>" using assms(1) by (simp add: le_floor_iff)
  then show "22 / 100 \<le> toFixed2 q" unfolding toFixed2_def by (simp add: of_int_le_iff[symmetric] del: of_int_le_iff)
  have "\<lfloor>q * 100 + 1 / 2\<rfloor> \<le> (100::int)" using assms(2) by (simp add: floor_le_iff)
  then show "toFixed2 q \<le> 1" unfolding toFixed2_def by (simp add: of_int_le_iff[symmetric] del: of_int_le_iff)
qed

lemma toFixed2_near: "\<bar>toFixed2 q - q\<bar> \<le> 1 / 200"
proof -
  define n where "n = \<lfloor>q * 100 + 1 / 2\<rfloor>"
  have lo: "rat_of_int n \<le> q * 100 + 1 / 2" and hi: "q * 100 + 1 / 2 < rat_of_int n + 1"
    unfolding n_def by linarith+
  have "toFixed2 q = rat_of_int n / 100" by (simp add: toFixed2_def n_def)
  then show ?thesis using lo hi by linarith
qed

section \<open>The edges of buildDependencies\<close>

lemma edgePairs_product:
  "edgePairs items =
     map (\<lambda>(i, j). \<lparr> from_id = skill_id (items ! i), to_id = skill_id (items ! j),
            weight = toFixed2 (jaccard (item_keywords (items ! i)) (item_keywords (items ! j))) \<rparr>)
       (filter (\<lambda>(i, j). i \<noteq> j \<and>
            22 / 100 \<le> jaccard (item_keywords (items ! i)) (item_keywords (items ! j)))
          (List.product [0 ..< length items] [0 ..< length items]))"
proof -
  have r: "(if a then [] else if c then x else []) = (if \<not> a \<and> c then x else [])"
    for a c and x :: "edge list"
    by simp
  show ?thesis unfolding edgePairs_def Let_def r by (rule concat_product)
qed

lemma edgePairs_member:
  "e \<in> set (edgePairs items) \<longleftrightarrow>
     (\<exists>i j. i < length items \<and> j < length items \<and> i \<noteq> j \<and>
        22 / 100 \<le> jaccard (item_keywords (items ! i)) (item_keywords (items ! j)) \<and>
        e = \<lparr> from_id = skill_id (items ! i), to_id = skill_id (items ! j),
              weight = toFixed2 (jaccard (item_keywords (items ! i)) (item_keywords (items ! j))) \<rparr>)"
  (is "?L \<longleftrightarrow> ?R")
proof
  assume ?L
  then obtain p where p: "p \<in> set (List.product [0 ..< length items] [0 ..< length items])"
    and P: "(\<lambda>(i, j). i \<noteq> j \<and>
            22 / 100 \<le> jaccard (item_keywords (items ! i)) (item_keywords (items ! j))) p"
    and e: "e = (\<lambda>(i, j). \<lparr> from_id = skill_id (items ! i), to_id = skill_id (items ! j),
            weight = toFixed2 (jaccard (item_keywords (items ! i)) (item_keywords (items ! j))) \<rparr>) p"
    unfolding edgePairs_product by (auto simp only: set_map set_filter image_iff mem_Collect_eq)
  obtain i j where ij: "p = (i, j)" by (cases p)
  from p have "i < length items" "j < length items" unfolding ij by simp_all
  with P e show ?R unfolding ij by (intro exI[of _ i] exI[of _ j]) simp
next
  assume ?R
  then obtain i j where b: "i < length items" "j < length items"
    and P: "i \<noteq> j \<and> 22 / 100 \<le> jaccard (item_keywords (items ! i)) (item_keywords (items ! j))"
    and e: "e = \<lparr> from_id = skill_id (items ! i), to_id = skill_id (items ! j),
              weight = toFixed2 (jaccard (item_keywords (items ! i)) (item_keywords (items ! j))) \<rparr>"
    by blast
  have "(i, j) \<in> set (filter (\<lambda>(i, j). i \<noteq> j \<and>
            22 / 100 \<le> jaccard (item_keywords (items ! i)) (item_keywords (items ! j)))
          (List.product [0 ..< length items] [0 ..< length items]))"
    using b P by simp
  then show ?L unfolding edgePairs_product e by (simp only: set_map) (rule image_eqI[where x = "(i, j)"], simp_all)
qed

lemma edgePairs_ends_distinct:
  assumes ids: "\<And>i. i < length items \<Longrightarrow> skill_id (items ! i) = skillId i"
  shows "distinct (map (\<lambda>e. (from_id e, to_id e)) (edgePairs items))"
    and "distinct (map edgeKey (edgePairs items))"
proof -
  let ?n = "length items"
  let ?P = "\<lambda>(i, j). i \<noteq> j \<and>
            22 / 100 \<le> jaccard (item_keywords (items ! i)) (item_keywords (items ! j))"
  let ?prs = "filter ?P (List.product [0 ..< ?n] [0 ..< ?n])"
  have d: "distinct ?prs" by (simp add: distinct_product)
  have bound: "i < ?n \<and> j < ?n" if "(i, j) \<in> set ?prs" for i j using that by auto
  have ends: "map (\<lambda>e. (from_id e, to_id e)) (edgePairs items) =
      map (\<lambda>(i, j). (skillId i, skillId j)) ?prs"
    unfolding edgePairs_product using bound ids by (auto simp: comp_def)
  have keys: "map edgeKey (edgePairs items) =
      map (\<lambda>(i, j). skillId i @ js ''->'' @ skillId j) ?prs"
    unfolding edgePairs_product using bound ids by (auto simp: comp_def edgeKey_def)
  have "inj_on (\<lambda>(i, j). (skillId i, skillId j)) (set ?prs)"
    by (auto simp: inj_on_def dest: skillId_inj)
  with d show "distinct (map (\<lambda>e. (from_id e, to_id e)) (edgePairs items))"
    unfolding ends by (simp add: distinct_map)
  have "inj_on (\<lambda>(i, j). skillId i @ js ''->'' @ skillId j) (set ?prs)"
  proof (rule inj_onI)
    fix p q assume "p \<in> set ?prs" "q \<in> set ?prs"
      and eq: "(case p of (i, j) \<Rightarrow> skillId i @ js ''->'' @ skillId j) =
               (case q of (i, j) \<Rightarrow> skillId i @ js ''->'' @ skillId j)"
    obtain i j k l where p: "p = (i, j)" and q: "q = (k, l)" by (cases p, cases q) auto
    from eq have eq': "skillId i @ js ''->'' @ skillId j = skillId k @ js ''->'' @ skillId l"
      unfolding p q by (simp only: prod.case)
    have "skillId i = skillId k \<and> skillId j = skillId l"
      by (rule key_split[OF skillId_no_gt skillId_no_gt eq'])
    then show "p = q" unfolding p q by (auto dest: skillId_inj)
  qed
  with d show "distinct (map edgeKey (edgePairs items))"
    unfolding keys by (simp add: distinct_map)
qed

lemma buildDependencies_pairs:
  assumes "\<And>i. i < length items \<Longrightarrow> skill_id (items ! i) = skillId i"
  shows "buildDependencies items = edgePairs items"
  using dedup_distinct[OF edgePairs_ends_distinct(2)[OF assms]]
  by (simp add: buildDependencies_def Let_def comp_def)

lemma compiled_ids:
  "i < length (compileItems lower langMode chunks) \<Longrightarrow>
   skill_id (compileItems lower langMode chunks ! i) = skillId i"
  by (simp add: length_compileItems compileItems_nth compileItem_fields)

section \<open>The dependency graph of the compiled items\<close>

lemma example_keywords:
  "topKeywords asciiLower (js ''valve pump open'') 12 Auto = [js ''valve'', js ''pump'', js ''open'']"
  "topKeywords asciiLower (js ''valve pump close'') 12 Auto = [js ''valve'', js ''pump'', js ''close'']"
  by code_simp+

lemma example_similarity:
  "jaccardSpec [js ''valve'', js ''pump'', js ''open''] [js ''valve'', js ''pump'', js ''close''] = 1 / 2"
  "toFixed2 (1 / 2) = 1 / 2"
  by code_simp+

text \<open>
  C4.  For every edge that \<open>buildDependencies\<close> emits for the compiled items, the weight is
  the Jaccard similarity \<open>|A \<inter> B| / |A \<union> B|\<close> of the keyword sets of two different items
  rounded to 2 decimals (a multiple of 0.01 within 0.005 of it), the weight lies in
  \<open>[0.22, 1.00]\<close>, the two ids of the edge differ, and no two edges have the same ordered
  pair of ids.
\<close>

theorem dependency_edges:
  "let items = compileItems lower langMode chunks; deps = buildDependencies items in
   (\<forall>e \<in> set deps.
      (\<exists>i j. i < length items \<and> j < length items \<and> i \<noteq> j \<and>
         from_id e = skill_id (items ! i) \<and> to_id e = skill_id (items ! j) \<and>
         weight e = toFixed2 (jaccardSpec (item_keywords (items ! i)) (item_keywords (items ! j))) \<and>
         \<bar>weight e - jaccardSpec (item_keywords (items ! i)) (item_keywords (items ! j))\<bar> \<le> 1 / 200) \<and>
      (\<exists>n. weight e = rat_of_int n / 100) \<and>
      22 / 100 \<le> weight e \<and> weight e \<le> 1 \<and> from_id e \<noteq> to_id e) \<and>
   distinct (map (\<lambda>e. (from_id e, to_id e)) deps)"
proof -
  let ?items = "compileItems lower langMode chunks"
  let ?J = "\<lambda>i j. jaccardSpec (item_keywords (?items ! i)) (item_keywords (?items ! j))"
  have deps: "buildDependencies ?items = edgePairs ?items"
    by (rule buildDependencies_pairs) (rule compiled_ids)
  have edge: "(\<exists>i j. i < length ?items \<and> j < length ?items \<and> i \<noteq> j \<and>
         from_id e = skill_id (?items ! i) \<and> to_id e = skill_id (?items ! j) \<and>
         weight e = toFixed2 (?J i j) \<and> \<bar>weight e - ?J i j\<bar> \<le> 1 / 200) \<and>
      (\<exists>n. weight e = rat_of_int n / 100) \<and>
      22 / 100 \<le> weight e \<and> weight e \<le> 1 \<and> from_id e \<noteq> to_id e"
    if "e \<in> set (edgePairs ?items)" for e
  proof -
    from that obtain i j where b: "i < length ?items" "j < length ?items" "i \<noteq> j"
      and big: "22 / 100 \<le> ?J i j"
      and e: "e = \<lparr> from_id = skill_id (?items ! i), to_id = skill_id (?items ! j),
                weight = toFixed2 (?J i j) \<rparr>"
      unfolding edgePairs_member jaccard_spec by blast
    have "skillId i \<noteq> skillId j" using b(3) skillId_inj by blast
    then have "from_id e \<noteq> to_id e" using b by (simp add: e compiled_ids)
    moreover have "22 / 100 \<le> weight e" "weight e \<le> 1"
      using toFixed2_range[OF big jaccardSpec_le_1] by (simp_all add: e)
    moreover have "\<exists>n. weight e = rat_of_int n / 100"
      unfolding e toFixed2_def by simp
    moreover have "\<bar>weight e - ?J i j\<bar> \<le> 1 / 200" using toFixed2_near[of "?J i j"] by (simp add: e)
    moreover have "from_id e = skill_id (?items ! i)" "to_id e = skill_id (?items ! j)"
      "weight e = toFixed2 (?J i j)" by (simp_all add: e)
    ultimately show ?thesis using b by blast
  qed
  have "distinct (map (\<lambda>e. (from_id e, to_id e)) (edgePairs ?items))"
    by (rule edgePairs_ends_distinct(1)) (rule compiled_ids)
  with edge show ?thesis unfolding Let_def deps by blast
qed

theorem dependency_edges_witness:
  "\<lparr> from_id = skillId 0, to_id = skillId 1, weight = 1 / 2 \<rparr>
     \<in> set (buildDependencies (compileItems asciiLower Auto [js ''valve pump open'', js ''valve pump close''])) \<and>
   distinct (map (\<lambda>e. (from_id e, to_id e))
     (buildDependencies (compileItems asciiLower Auto [js ''valve pump open'', js ''valve pump close'']))) \<and>
   22 / 100 \<le> weight \<lparr> from_id = skillId 0, to_id = skillId 1, weight = 1 / 2 \<rparr> \<and>
   weight \<lparr> from_id = skillId 0, to_id = skillId 1, weight = 1 / 2 \<rparr> \<le> 1 \<and>
   from_id \<lparr> from_id = skillId 0, to_id = skillId 1, weight = 1 / 2 \<rparr> \<noteq>
     to_id \<lparr> from_id = skillId 0, to_id = skillId 1, weight = 1 / 2 \<rparr>"
proof -
  let ?items = "compileItems asciiLower Auto [js ''valve pump open'', js ''valve pump close'']"
  let ?e = "\<lparr> from_id = skillId 0, to_id = skillId 1, weight = 1 / 2 \<rparr>"
  have "buildDependencies ?items = edgePairs ?items"
    by (rule buildDependencies_pairs) (rule compiled_ids)
  moreover have "?e \<in> set (edgePairs ?items)"
    unfolding edgePairs_member jaccard_spec
    by (rule exI[of _ 0], rule exI[of _ 1])
       (simp add: example_keywords example_similarity length_compileItems compileItems_nth compileItem_fields)
  ultimately have mem: "?e \<in> set (buildDependencies ?items)" by simp
  from dependency_edges[of asciiLower Auto "[js ''valve pump open'', js ''valve pump close'']"]
  have all: "\<forall>e \<in> set (buildDependencies ?items).
      22 / 100 \<le> weight e \<and> weight e \<le> 1 \<and> from_id e \<noteq> to_id e"
    and d: "distinct (map (\<lambda>e. (from_id e, to_id e)) (buildDependencies ?items))"
    unfolding Let_def by blast+
  from all mem have "22 / 100 \<le> weight ?e \<and> weight ?e \<le> 1 \<and> from_id ?e \<noteq> to_id ?e" by blast
  with mem d show ?thesis by blast
qed

text \<open>
  The graph of the compiled items is symmetric: an edge from \<open>i\<close> to \<open>j\<close> comes with the
  edge from \<open>j\<close> to \<open>i\<close>, of the same weight.
\<close>

lemma edges_symmetric:
  "let items = compileItems lower langMode chunks; deps = buildDependencies items in
   (\<forall>i j. i < length items \<and> j < length items \<and> i \<noteq> j \<longrightarrow>
      ((\<exists>e \<in> set deps. from_id e = skill_id (items ! i) \<and> to_id e = skill_id (items ! j)) \<longleftrightarrow>
       (\<exists>e \<in> set deps. from_id e = skill_id (items ! j) \<and> to_id e = skill_id (items ! i)))) \<and>
   (\<forall>e \<in> set deps. \<forall>e' \<in> set deps.
      from_id e' = to_id e \<and> to_id e' = from_id e \<longrightarrow> weight e' = weight e) \<and>
   (\<forall>i j. i < length items \<and> j < length items \<and> i \<noteq> j \<and>
      22 / 100 \<le> jaccardSpec (item_keywords (items ! i)) (item_keywords (items ! j)) \<longrightarrow>
      \<lparr> from_id = skill_id (items ! i), to_id = skill_id (items ! j),
        weight = toFixed2 (jaccardSpec (item_keywords (items ! i)) (item_keywords (items ! j))) \<rparr>
        \<in> set deps \<and>
      \<lparr> from_id = skill_id (items ! j), to_id = skill_id (items ! i),
        weight = toFixed2 (jaccardSpec (item_keywords (items ! i)) (item_keywords (items ! j))) \<rparr>
        \<in> set deps)"
proof -
  let ?items = "compileItems lower langMode chunks"
  let ?n = "length ?items"
  let ?J = "\<lambda>i j. jaccardSpec (item_keywords (?items ! i)) (item_keywords (?items ! j))"
  let ?mk = "\<lambda>i j. \<lparr> from_id = skill_id (?items ! i), to_id = skill_id (?items ! j),
                weight = toFixed2 (?J i j) \<rparr>"
  have deps: "buildDependencies ?items = edgePairs ?items"
    by (rule buildDependencies_pairs) (rule compiled_ids)
  have mem: "e \<in> set (edgePairs ?items) \<longleftrightarrow>
      (\<exists>i j. i < ?n \<and> j < ?n \<and> i \<noteq> j \<and> 22 / 100 \<le> ?J i j \<and> e = ?mk i j)" for e
    unfolding edgePairs_member jaccard_spec ..
  have sym: "?J i j = ?J j i" for i j by (rule jaccardSpec_sym)
  have same: "i = k" if "i < ?n" "k < ?n" "skill_id (?items ! i) = skill_id (?items ! k)" for i k
    using that skillId_inj by (simp add: compiled_ids)
  have both: "?mk i j \<in> set (edgePairs ?items) \<and>
      \<lparr> from_id = skill_id (?items ! j), to_id = skill_id (?items ! i), weight = toFixed2 (?J i j) \<rparr>
        \<in> set (edgePairs ?items)"
    if "i < ?n" "j < ?n" "i \<noteq> j" "22 / 100 \<le> ?J i j" for i j
  proof
    show "?mk i j \<in> set (edgePairs ?items)" unfolding mem using that by blast
    have "?mk j i \<in> set (edgePairs ?items)" unfolding mem using that sym[of i j] by metis
    then show "\<lparr> from_id = skill_id (?items ! j), to_id = skill_id (?items ! i),
        weight = toFixed2 (?J i j) \<rparr> \<in> set (edgePairs ?items)"
      by (simp only: sym[of i j])
  qed
  have dir: "\<exists>e \<in> set (edgePairs ?items). from_id e = skill_id (?items ! j) \<and> to_id e = skill_id (?items ! i)"
    if b: "i < ?n" "j < ?n" "i \<noteq> j"
      and ex: "\<exists>e \<in> set (edgePairs ?items). from_id e = skill_id (?items ! i) \<and> to_id e = skill_id (?items ! j)"
    for i j
  proof -
    from ex obtain e where e: "e \<in> set (edgePairs ?items)"
      "from_id e = skill_id (?items ! i)" "to_id e = skill_id (?items ! j)" by blast
    from e(1) obtain k l where kl: "k < ?n" "l < ?n" "k \<noteq> l" "22 / 100 \<le> ?J k l" "e = ?mk k l"
      unfolding mem by blast
    have "k = i" "l = j" using same kl(1,2) b(1,2) e(2,3) by (simp_all add: kl(5))
    then have "22 / 100 \<le> ?J i j" using kl(4) by simp
    from both[OF b this] show ?thesis by force
  qed
  have iff: "(\<exists>e \<in> set (edgePairs ?items). from_id e = skill_id (?items ! i) \<and> to_id e = skill_id (?items ! j)) \<longleftrightarrow>
       (\<exists>e \<in> set (edgePairs ?items). from_id e = skill_id (?items ! j) \<and> to_id e = skill_id (?items ! i))"
    if "i < ?n" "j < ?n" "i \<noteq> j" for i j
    using dir[of i j] dir[of j i] that by blast
  have eqw: "weight e' = weight e"
    if "e \<in> set (edgePairs ?items)" "e' \<in> set (edgePairs ?items)"
      "from_id e' = to_id e" "to_id e' = from_id e" for e e'
  proof -
    from that(1) obtain i j where ij: "i < ?n" "j < ?n" "e = ?mk i j" unfolding mem by blast
    from that(2) obtain k l where kl: "k < ?n" "l < ?n" "e' = ?mk k l" unfolding mem by blast
    have "k = j" "l = i" using same ij(1,2) kl(1,2) that(3,4) by (simp_all add: ij(3) kl(3))
    then show ?thesis using sym[of i j] by (simp add: ij(3) kl(3))
  qed
  show ?thesis unfolding Let_def deps using iff eqw both by blast
qed

section \<open>The outcomes of run\<close>

lemma replaceRuns_delete: "replaceRuns C 1 [] x = filter (\<lambda>c. \<not> C c) x"
proof (induction C "1::nat" "[]::jsstring" x rule: replaceRuns.induct)
  case (1 C)
  show ?case by simp
next
  case (2 C c cs)
  show ?case
  proof (cases "C c")
    case True
    have "filter (\<lambda>c. \<not> C c) cs = filter (\<lambda>c. \<not> C c) (takeWhile C cs @ dropWhile C cs)" by simp
    also have "\<dots> = filter (\<lambda>c. \<not> C c) (dropWhile C cs)"
      unfolding filter_append by (simp add: filter_empty_conv) (meson set_takeWhileD)
    finally show ?thesis using True 2 by simp
  next
    case False
    with 2 show ?thesis by simp
  qed
qed

lemma nonSpaceLength_filter: "nonSpaceLength x = length (filter (\<lambda>c. \<not> isSpace c) x)"
  by (simp only: nonSpaceLength_def replaceRuns_delete)

lemma nonSpaceLength_joined:
  "nonSpaceLength (b1 @ [NL, NL] @ b2) = nonSpaceLength b1 + nonSpaceLength b2"
  "nonSpaceLength (b1 @ NL # NL # b2) = nonSpaceLength b1 + nonSpaceLength b2"
  by (simp_all add: nonSpaceLength_filter isSpace_def)

lemma splitRuns_words:
  "length (filter (\<lambda>w. w \<noteq> []) (splitRuns isSpace 1 cur s)) \<le>
     (if cur = [] then 0 else 1) + length (filter (\<lambda>c. \<not> isSpace c) s)"
proof (induction isSpace "1::nat" cur s rule: splitRuns.induct)
  case (1 cur)
  show ?case by simp
next
  case (2 cur c cs)
  show ?case
  proof (cases "isSpace c")
    case True
    have "filter (\<lambda>c. \<not> isSpace c) cs = filter (\<lambda>c. \<not> isSpace c) (takeWhile isSpace cs @ dropWhile isSpace cs)"
      by simp
    also have "\<dots> = filter (\<lambda>c. \<not> isSpace c) (dropWhile isSpace cs)"
      unfolding filter_append by (simp add: filter_empty_conv) (meson set_takeWhileD)
    finally have f: "filter (\<lambda>c. \<not> isSpace c) cs = filter (\<lambda>c. \<not> isSpace c) (dropWhile isSpace cs)" .
    show ?thesis using True 2(1) by (simp add: f)
  next
    case False
    with 2(3) show ?thesis by (simp split: if_splits)
  qed
qed

lemma wordCount_le: "wordCount x \<le> nonSpaceLength x"
  using splitRuns_words[of "[]" x] by (simp add: wordCount_def nonSpaceLength_filter)


lemma chunkBlocks_two:
  "chunkBlocks [b1, b2] 24 =
     Some (if wordCount b1 + wordCount b2 \<le> 280 \<and> wordCount b1 < 140
           then [b1 @ [NL, NL] @ b2] else [b1, b2])"
  by (simp add: chunkBlocks_def Let_def not_le not_less)

lemma splitSemanticBlocks_Nil: "splitSemanticBlocks [] = []"
  by (simp add: splitSemanticBlocks_def trim_def)


lemma runOnText_chunks:
  assumes "normalizeText text \<noteq> []"
    and "chunkBlocks (splitSemanticBlocks (normalizeText text)) (maxChunksOf (arg_maxChunks a)) = Some chunks"
  shows "runOnText lower a n text =
     (let clipped = filter (\<lambda>x. 80 < nonSpaceLength x) chunks;
          items = compileItems lower (langModeOf (arg_lang a)) clipped;
          deps = buildDependencies items
      in if clipped = [] then Failed NoSemanticContent
         else Done \<lparr> skillItems = items, dependencies = deps,
                     files = packFiles (slugify lower (arg_name a)) (langModeOf (arg_lang a)) n
                               (arg_minScore a) (normalizeText text) items deps \<rparr>)"
  using assms by (simp add: runOnText_def Let_def)


lemma extracted_single:
  "normalizeText t = t \<Longrightarrow> t \<noteq> [] \<Longrightarrow>
   join [NL, NL] (extractedTexts [(base, t)]) = js ''## Source: '' @ base @ [NL, NL] @ t"
  by (simp add: extractedTexts_def)





section \<open>Two paragraphs\<close>

lemma content_compileItems: "map content (compileItems lower langMode chunks) = chunks"
  by (rule nth_equalityI) (simp_all add: length_compileItems compileItems_nth compileItem_fields)

lemma index_in_files:
  "(js ''skills/index.md'', Text (join [NL] (indexHeader m @ map indexRow items)))
     \<in> set (packFiles skillName langMode n m normalized items deps)"
  by (simp add: packFiles_def buildIndexMd_def)

lemma two_blocks_clipped:
  assumes "50 \<le> nonSpaceLength b1" "50 \<le> nonSpaceLength b2"
  shows "filter (\<lambda>c. 80 < nonSpaceLength c)
           (if wordCount b1 + wordCount b2 \<le> 280 \<and> wordCount b1 < 140
            then [b1 @ [NL, NL] @ b2] else [b1, b2]) \<noteq> []"
proof (cases "wordCount b1 + wordCount b2 \<le> 280 \<and> wordCount b1 < 140")
  case True
  then show ?thesis using assms by (simp add: nonSpaceLength_joined)
next
  case False
  then have "140 \<le> wordCount b1 \<or> 140 \<le> wordCount b2" by linarith
  then have "80 < nonSpaceLength b1 \<or> 80 < nonSpaceLength b2"
    using wordCount_le[of b1] wordCount_le[of b2] by linarith
  with False show ?thesis by auto
qed

lemma run_two_blocks:
  assumes blocks: "splitSemanticBlocks (normalizeText text) = [b1, b2]"
    and long: "50 \<le> nonSpaceLength b1" "50 \<le> nonSpaceLength b2"
    and cap: "maxChunksOf (arg_maxChunks a) = 24"
  shows "\<exists>p. runOnText lower a n text = Done p \<and>
    skillItems p = compileItems lower (langModeOf (arg_lang a))
      (filter (\<lambda>c. 80 < nonSpaceLength c)
        (if wordCount b1 + wordCount b2 \<le> 280 \<and> wordCount b1 < 140
         then [b1 @ [NL, NL] @ b2] else [b1, b2])) \<and>
    (js ''skills/index.md'',
      Text (join [NL] (indexHeader (arg_minScore a) @ map indexRow (skillItems p)))) \<in> set (files p)"
proof -
  have ne: "normalizeText text \<noteq> []" using blocks splitSemanticBlocks_Nil by force
  have ch: "chunkBlocks (splitSemanticBlocks (normalizeText text)) (maxChunksOf (arg_maxChunks a)) =
     Some (if wordCount b1 + wordCount b2 \<le> 280 \<and> wordCount b1 < 140
           then [b1 @ [NL, NL] @ b2] else [b1, b2])"
    unfolding blocks cap by (rule chunkBlocks_two)
  show ?thesis
    unfolding runOnText_chunks[OF ne ch] Let_def
    using two_blocks_clipped[OF long] by (simp add: index_in_files)
qed

text \<open>
  C1 (amended).  For a text whose normalized form splits into exactly two blocks, both of
  50 or more characters other than white space, and \<open>maxChunks = 24\<close>, \<open>run\<close> succeeds, and
  the chunker makes one chunk of the two paragraphs when their combined word count is at
  most 280 and the first has fewer than 140 words, and two chunks otherwise.  A chunk of
  at most 80 characters other than white space is then dropped; so there is 1 item in the
  first case, and in the second there are 2 items when both paragraphs have more than 80
  such characters, and 1 item otherwise.  \<open>skills/index.md\<close> is the header followed by one
  row for each item.
\<close>

theorem two_paragraphs_chunks:
  assumes "splitSemanticBlocks (normalizeText text) = [b1, b2]"
    and "50 \<le> nonSpaceLength b1" and "50 \<le> nonSpaceLength b2"
    and "arg_maxChunks a = Num 24"
  shows "\<exists>p. runOnText lower a n text = Done p \<and>
    map content (skillItems p) =
      filter (\<lambda>c. 80 < nonSpaceLength c)
        (if wordCount b1 + wordCount b2 \<le> 280 \<and> wordCount b1 < 140
         then [b1 @ [NL, NL] @ b2] else [b1, b2]) \<and>
    (if wordCount b1 + wordCount b2 \<le> 280 \<and> wordCount b1 < 140 then length (skillItems p) = 1
     else if 80 < nonSpaceLength b1 \<and> 80 < nonSpaceLength b2 then length (skillItems p) = 2
     else length (skillItems p) = 1) \<and>
    (js ''skills/index.md'',
      Text (join [NL] (indexHeader (arg_minScore a) @ map indexRow (skillItems p)))) \<in> set (files p)"
proof -
  let ?chunks = "if wordCount b1 + wordCount b2 \<le> 280 \<and> wordCount b1 < 140
         then [b1 @ [NL, NL] @ b2] else [b1, b2]"
  let ?clipped = "filter (\<lambda>c. 80 < nonSpaceLength c) ?chunks"
  have cap: "maxChunksOf (arg_maxChunks a) = 24" using assms(4) by (simp add: maxChunksOf_def)
  from run_two_blocks[OF assms(1-3) cap, of lower n] obtain p where
    p: "runOnText lower a n text = Done p"
    and items: "skillItems p = compileItems lower (langModeOf (arg_lang a)) ?clipped"
    and idx: "(js ''skills/index.md'',
      Text (join [NL] (indexHeader (arg_minScore a) @ map indexRow (skillItems p)))) \<in> set (files p)"
    by blast
  have cont: "map content (skillItems p) = ?clipped" unfolding items by (rule content_compileItems)
  have len: "length (skillItems p) = length ?clipped" unfolding items by (rule length_compileItems)
  have ne: "?clipped \<noteq> []" using two_blocks_clipped[OF assms(2,3)] .
  have cnt: "if wordCount b1 + wordCount b2 \<le> 280 \<and> wordCount b1 < 140 then length (skillItems p) = 1
     else if 80 < nonSpaceLength b1 \<and> 80 < nonSpaceLength b2 then length (skillItems p) = 2
     else length (skillItems p) = 1"
    unfolding len using ne by (auto split: if_splits)
  from p cont cnt idx show ?thesis by blast
qed

theorem two_paragraphs_chunks_witness:
  "splitSemanticBlocks (normalizeText
      (js ''Open the main valve slowly and watch the pressure gauge closely at all times.'' @ [NL, NL] @ js ''Close the drain valve before starting the pump and verify the seal is tight.'')) =
     [js ''Open the main valve slowly and watch the pressure gauge closely at all times.'', js ''Close the drain valve before starting the pump and verify the seal is tight.''] \<and>
   wordCount (js ''Open the main valve slowly and watch the pressure gauge closely at all times.'') + wordCount (js ''Close the drain valve before starting the pump and verify the seal is tight.'') = 28 \<and>
   map_option (map content) (itemsOf (runOnText asciiLower
      \<lparr> arg_name = js ''demo'', arg_maxChunks = Num 24, arg_minScore = Num 55, arg_lang = js ''auto'' \<rparr> 1
      (js ''Open the main valve slowly and watch the pressure gauge closely at all times.'' @ [NL, NL] @ js ''Close the drain valve before starting the pump and verify the seal is tight.''))) =
     Some [js ''Open the main valve slowly and watch the pressure gauge closely at all times.'' @ [NL, NL] @ js ''Close the drain valve before starting the pump and verify the seal is tight.'']"
proof -
  let ?P = "js ''Open the main valve slowly and watch the pressure gauge closely at all times.''"
  let ?Q = "js ''Close the drain valve before starting the pump and verify the seal is tight.''"
  let ?a = "\<lparr> arg_name = js ''demo'', arg_maxChunks = Num 24, arg_minScore = Num 55, arg_lang = js ''auto'' \<rparr>"
  have blocks: "splitSemanticBlocks (normalizeText (?P @ [NL, NL] @ ?Q)) = [?P, ?Q]" by code_simp
  have wp: "wordCount ?P = 14" and wq: "wordCount ?Q = 14" by code_simp+
  have lp: "50 \<le> nonSpaceLength ?P" and lq: "50 \<le> nonSpaceLength ?Q" by code_simp+
  have long: "80 < nonSpaceLength (?P @ [NL, NL] @ ?Q)" by code_simp
  from two_paragraphs_chunks[OF blocks lp lq, of ?a asciiLower 1] obtain p where
    "runOnText asciiLower ?a 1 (?P @ [NL, NL] @ ?Q) = Done p"
    "map content (skillItems p) = filter (\<lambda>c. 80 < nonSpaceLength c) [?P @ [NL, NL] @ ?Q]"
    unfolding wp wq by auto
  then show ?thesis using blocks wp wq long by simp
qed

text \<open>
  Two paragraphs of 140 and 10 words have 150 words together and still make two chunks,
  because the first has reached 140 words; a paragraph of one word of 50 characters and
  one of 280 words have 281 words together and leave one chunk, because the chunk of 50
  characters is dropped.
\<close>

theorem two_paragraphs_counterexample:
  "50 \<le> nonSpaceLength (join [SP] (replicate 140 (js ''a''))) \<and>
   50 \<le> nonSpaceLength (join [SP] (replicate 10 (js ''valvepump''))) \<and>
   wordCount (join [SP] (replicate 140 (js ''a''))) +
     wordCount (join [SP] (replicate 10 (js ''valvepump''))) \<le> 280 \<and>
   map_option length (itemsOf (run asciiLower
      \<lparr> arg_name = js ''demo'', arg_maxChunks = Num 24, arg_minScore = Num 55, arg_lang = js ''auto'' \<rparr>
      [(js ''a.pdf'', join [SP] (replicate 140 (js ''a'')) @ [NL, NL] @
                      join [SP] (replicate 10 (js ''valvepump'')))])) = Some 2 \<and>
   50 \<le> nonSpaceLength (replicate 50 97) \<and>
   50 \<le> nonSpaceLength (join [SP] (replicate 280 (js ''b''))) \<and>
   280 < wordCount (replicate 50 97) + wordCount (join [SP] (replicate 280 (js ''b''))) \<and>
   map_option length (itemsOf (run asciiLower
      \<lparr> arg_name = js ''demo'', arg_maxChunks = Num 24, arg_minScore = Num 55, arg_lang = js ''auto'' \<rparr>
      [(js ''a.pdf'', replicate 50 97 @ [NL, NL] @ join [SP] (replicate 280 (js ''b'')))])) = Some 1"
proof -
  let ?a = "\<lparr> arg_name = js ''demo'', arg_maxChunks = Num 24, arg_minScore = Num 55, arg_lang = js ''auto'' \<rparr>"
  have cap: "maxChunksOf (arg_maxChunks ?a) = 24" by (simp add: maxChunksOf_def)
  let ?P = "join [SP] (replicate 140 (js ''a''))"
  let ?Q = "join [SP] (replicate 10 (js ''valvepump''))"
  have nP: "nonSpaceLength ?P = 140" and nQ: "nonSpaceLength ?Q = 90" by code_simp+
  have wP: "wordCount ?P = 140" and wQ: "wordCount ?Q = 10" by code_simp+
  have tA: "normalizeText (?P @ [NL, NL] @ ?Q) = ?P @ [NL, NL] @ ?Q" by code_simp
  have neA: "?P @ [NL, NL] @ ?Q \<noteq> []" by (simp add: js_def)
  have jA: "join [NL, NL] (extractedTexts [(js ''a.pdf'', ?P @ [NL, NL] @ ?Q)]) =
      js ''## Source: '' @ js ''a.pdf'' @ [NL, NL] @ ?P @ [NL, NL] @ ?Q"
    by (rule extracted_single[OF tA neA])
  have bA: "splitSemanticBlocks (normalizeText
      (js ''## Source: '' @ js ''a.pdf'' @ [NL, NL] @ ?P @ [NL, NL] @ ?Q)) = [?P, ?Q]" by code_simp
  from run_two_blocks[OF bA _ _ cap, of asciiLower 1] obtain p where
    p: "run asciiLower ?a [(js ''a.pdf'', ?P @ [NL, NL] @ ?Q)] = Done p"
      "skillItems p = compileItems asciiLower (langModeOf (arg_lang ?a))
         (filter (\<lambda>c. 80 < nonSpaceLength c) [?P, ?Q])"
    unfolding run_def jA nP nQ wP wQ by auto
  have A: "map_option length (itemsOf (run asciiLower ?a [(js ''a.pdf'', ?P @ [NL, NL] @ ?Q)])) = Some 2"
    unfolding p(1) by (simp add: p(2) length_compileItems nP nQ)
  let ?R = "replicate 50 (97::nat)"
  let ?S = "join [SP] (replicate 280 (js ''b''))"
  have nR: "nonSpaceLength ?R = 50" and nS: "nonSpaceLength ?S = 280" by code_simp+
  have wR: "wordCount ?R = 1" and wS: "wordCount ?S = 280" by code_simp+
  have tB: "normalizeText (?R @ [NL, NL] @ ?S) = ?R @ [NL, NL] @ ?S" by code_simp
  have neB: "?R @ [NL, NL] @ ?S \<noteq> []" by simp
  have jB: "join [NL, NL] (extractedTexts [(js ''a.pdf'', ?R @ [NL, NL] @ ?S)]) =
      js ''## Source: '' @ js ''a.pdf'' @ [NL, NL] @ ?R @ [NL, NL] @ ?S"
    by (rule extracted_single[OF tB neB])
  have bB: "splitSemanticBlocks (normalizeText
      (js ''## Source: '' @ js ''a.pdf'' @ [NL, NL] @ ?R @ [NL, NL] @ ?S)) = [?R, ?S]" by code_simp
  from run_two_blocks[OF bB _ _ cap, of asciiLower 1] obtain q where
    q: "run asciiLower ?a [(js ''a.pdf'', ?R @ [NL, NL] @ ?S)] = Done q"
      "skillItems q = compileItems asciiLower (langModeOf (arg_lang ?a))
         (filter (\<lambda>c. 80 < nonSpaceLength c) [?R, ?S])"
    unfolding run_def jB nR nS wR wS by auto
  have B: "map_option length (itemsOf (run asciiLower ?a [(js ''a.pdf'', ?R @ [NL, NL] @ ?S)])) = Some 1"
    unfolding q(1) by (simp add: q(2) length_compileItems nR nS)
  show ?thesis unfolding nP nQ wP wQ nR nS wR wS using A B by simp
qed

section \<open>The score cutoff\<close>

lemma packFiles_others:
  "filter (\<lambda>f. fst f \<noteq> js ''skills/index.md'' \<and> fst f \<noteq> js ''skills/routes.json'')
     (packFiles skillName langMode n m1 normalized items deps) =
   filter (\<lambda>f. fst f \<noteq> js ''skills/index.md'' \<and> fst f \<noteq> js ''skills/routes.json'')
     (packFiles skillName langMode n m2 normalized items deps)"
  by (simp add: packFiles_def js_def)

lemma packFiles_index:
  "map_of (packFiles skillName langMode n m normalized items deps) (js ''skills/index.md'') =
     Some (Text (join [NL] (indexHeader m @ map indexRow items)))"
  by (simp add: packFiles_def js_def buildIndexMd_def)

lemma packFiles_routes:
  "map_of (packFiles skillName langMode n m normalized items deps) (js ''skills/routes.json'') =
     Some (Json (buildRoutesJson items deps m))"
  by (simp add: packFiles_def js_def)

lemma run_cases:
  "run lower a sources = Failed EmptyExtraction \<or>
   run lower a sources = Failed NoSemanticContent \<or>
   run lower a sources = Hangs \<or>
   (\<exists>normalized items.
      run lower a sources =
        Done \<lparr> skillItems = items, dependencies = buildDependencies items,
               files = packFiles (slugify lower (arg_name a)) (langModeOf (arg_lang a))
                         (length sources) (arg_minScore a) normalized items
                         (buildDependencies items) \<rparr>)"
  by (auto simp: run_def runOnText_def Let_def split: option.splits)

text \<open>
  C8.  For every input and configuration and any two values of the score cutoff, the two
  runs end alike, with the same skill items and the same dependency edges, and with the
  same files apart from \<open>skills/index.md\<close> and \<open>skills/routes.json\<close>.  The index is the
  header and the rows of the items, and the two headers differ in their fifth line only,
  which records the cutoff; the routes differ in the field \<open>minScore\<close> only.
\<close>

theorem cutoff_is_metadata:
  "mapOutcome skillItems (run lower (a\<lparr>arg_minScore := m1\<rparr>) sources) =
     mapOutcome skillItems (run lower (a\<lparr>arg_minScore := m2\<rparr>) sources) \<and>
   mapOutcome dependencies (run lower (a\<lparr>arg_minScore := m1\<rparr>) sources) =
     mapOutcome dependencies (run lower (a\<lparr>arg_minScore := m2\<rparr>) sources) \<and>
   mapOutcome (\<lambda>p. filter (\<lambda>f. fst f \<noteq> js ''skills/index.md'' \<and> fst f \<noteq> js ''skills/routes.json'')
       (files p)) (run lower (a\<lparr>arg_minScore := m1\<rparr>) sources) =
     mapOutcome (\<lambda>p. filter (\<lambda>f. fst f \<noteq> js ''skills/index.md'' \<and> fst f \<noteq> js ''skills/routes.json'')
       (files p)) (run lower (a\<lparr>arg_minScore := m2\<rparr>) sources) \<and>
   mapOutcome (\<lambda>p. map_of (files p) (js ''skills/index.md'')) (run lower a sources) =
     mapOutcome (\<lambda>p. Some (Text (join [NL] (indexHeader (arg_minScore a) @ map indexRow (skillItems p)))))
       (run lower a sources) \<and>
   mapOutcome (\<lambda>p. map_of (files p) (js ''skills/routes.json'')) (run lower a sources) =
     mapOutcome (\<lambda>p. Some (Json (buildRoutesJson (skillItems p) (dependencies p) (arg_minScore a))))
       (run lower a sources) \<and>
   indexHeader m1 = (indexHeader m2)[4 := js ''Routing score cutoff: '' @ showNum m1] \<and>
   buildRoutesJson items deps m1 = (buildRoutesJson items deps m2)\<lparr>routes_minScore := m1\<rparr>"
proof -
  have two: "mapOutcome skillItems (run lower (a\<lparr>arg_minScore := m1\<rparr>) sources) =
     mapOutcome skillItems (run lower (a\<lparr>arg_minScore := m2\<rparr>) sources)"
    "mapOutcome dependencies (run lower (a\<lparr>arg_minScore := m1\<rparr>) sources) =
     mapOutcome dependencies (run lower (a\<lparr>arg_minScore := m2\<rparr>) sources)"
    "mapOutcome (\<lambda>p. filter (\<lambda>f. fst f \<noteq> js ''skills/index.md'' \<and> fst f \<noteq> js ''skills/routes.json'')
       (files p)) (run lower (a\<lparr>arg_minScore := m1\<rparr>) sources) =
     mapOutcome (\<lambda>p. filter (\<lambda>f. fst f \<noteq> js ''skills/index.md'' \<and> fst f \<noteq> js ''skills/routes.json'')
       (files p)) (run lower (a\<lparr>arg_minScore := m2\<rparr>) sources)"
    by (simp_all add: run_def runOnText_def Let_def packFiles_others[of _ _ _ m1 _ _ _ m2]
        split: option.splits)
  have one: "mapOutcome (\<lambda>p. map_of (files p) (js ''skills/index.md'')) (run lower a sources) =
     mapOutcome (\<lambda>p. Some (Text (join [NL] (indexHeader (arg_minScore a) @ map indexRow (skillItems p)))))
       (run lower a sources)"
    "mapOutcome (\<lambda>p. map_of (files p) (js ''skills/routes.json'')) (run lower a sources) =
     mapOutcome (\<lambda>p. Some (Json (buildRoutesJson (skillItems p) (dependencies p) (arg_minScore a))))
       (run lower a sources)"
    using run_cases[of lower a sources] by (auto simp: packFiles_index packFiles_routes)
  have hdr: "indexHeader m1 = (indexHeader m2)[4 := js ''Routing score cutoff: '' @ showNum m1]"
    by (simp add: indexHeader_def)
  have rts: "buildRoutesJson items deps m1 = (buildRoutesJson items deps m2)\<lparr>routes_minScore := m1\<rparr>"
    by (simp add: buildRoutesJson_def)
  from two one hdr rts show ?thesis by blast
qed

section \<open>The edges in routes.json\<close>

lemma md_not_routes: "js ''skills/'' @ s @ js ''.md'' \<noteq> js ''skills/routes.json''"
proof
  assume "js ''skills/'' @ s @ js ''.md'' = js ''skills/routes.json''"
  then have "last (js ''skills/'' @ s @ js ''.md'') = last (js ''skills/routes.json'')" by simp
  then show False by (simp add: js_def)
qed

lemma packFiles_routes_only:
  "filter (\<lambda>f. fst f = js ''skills/routes.json'')
     (packFiles skillName langMode n m normalized items deps) =
   [(js ''skills/routes.json'', Json (buildRoutesJson items deps m))]"
proof -
  have "filter (\<lambda>f. fst f = js ''skills/routes.json'')
      (map (\<lambda>item. (js ''skills/'' @ skill_id item @ js ''.md'', c item)) items) = []"
    for c :: "skillItem \<Rightarrow> fileContent"
    by (simp add: filter_empty_conv md_not_routes)
  moreover have "js ''SKILL.md'' \<noteq> js ''skills/routes.json''"
    "js ''README.md'' \<noteq> js ''skills/routes.json''"
    "js ''skills/index.md'' \<noteq> js ''skills/routes.json''"
    "js ''skills/dependency-graph.md'' \<noteq> js ''skills/routes.json''"
    "js ''references/source_excerpt.md'' \<noteq> js ''skills/routes.json''"
    by (simp_all add: js_def)
  ultimately show ?thesis by (simp add: packFiles_def Let_def)
qed

lemma run_done:
  assumes "run lower a sources = Done p"
  shows "\<exists>normalized chunks.
     skillItems p = compileItems lower (langModeOf (arg_lang a)) chunks \<and>
     dependencies p = buildDependencies (skillItems p) \<and>
     files p = packFiles (slugify lower (arg_name a)) (langModeOf (arg_lang a)) (length sources)
                 (arg_minScore a) normalized (skillItems p) (dependencies p)"
  using assms by (auto simp: run_def runOnText_def Let_def split: option.splits if_splits)

lemma routes_example_keywords:
  "topKeywords asciiLower (join [SP] (replicate 140 (js ''valve''))) 12 Auto = [js ''valve'']"
  "topKeywords asciiLower (join [SP] (replicate 10 (js ''valve pump''))) 12 Auto = [js ''valve'', js ''pump'']"
  by code_simp+

lemma routes_example_similarity:
  "jaccardSpec [js ''valve''] [js ''valve'', js ''pump''] = 1 / 2"
  "jaccardSpec [js ''valve'', js ''pump''] [js ''valve''] = 1 / 2"
  by code_simp+

text \<open>
  C5.  For two different compiled items \<open>i\<close> and \<open>j\<close>, the graph has an edge from \<open>i\<close> to
  \<open>j\<close> exactly when it has an edge from \<open>j\<close> to \<open>i\<close>, and the two edges have the same
  weight.  When the Jaccard similarity of their keyword sets is at least 0.22, both edges
  are in the graph, with the rounded similarity as their weight.  A run that ends writes
  one file \<open>skills/routes.json\<close>; its skills are the items of the run with their ids and
  keywords, its field \<open>dependencies\<close> is that graph of the items, and so all of this holds
  of the edges in \<open>routes.json\<close>.
\<close>

theorem dependency_symmetry:
  "(let items = compileItems lower langMode chunks; deps = buildDependencies items in
    (\<forall>i j. i < length items \<and> j < length items \<and> i \<noteq> j \<longrightarrow>
       ((\<exists>e \<in> set deps. from_id e = skill_id (items ! i) \<and> to_id e = skill_id (items ! j)) \<longleftrightarrow>
        (\<exists>e \<in> set deps. from_id e = skill_id (items ! j) \<and> to_id e = skill_id (items ! i)))) \<and>
    (\<forall>e \<in> set deps. \<forall>e' \<in> set deps.
       from_id e' = to_id e \<and> to_id e' = from_id e \<longrightarrow> weight e' = weight e) \<and>
    (\<forall>i j. i < length items \<and> j < length items \<and> i \<noteq> j \<and>
       22 / 100 \<le> jaccardSpec (item_keywords (items ! i)) (item_keywords (items ! j)) \<longrightarrow>
       \<lparr> from_id = skill_id (items ! i), to_id = skill_id (items ! j),
         weight = toFixed2 (jaccardSpec (item_keywords (items ! i)) (item_keywords (items ! j))) \<rparr>
         \<in> set deps \<and>
       \<lparr> from_id = skill_id (items ! j), to_id = skill_id (items ! i),
         weight = toFixed2 (jaccardSpec (item_keywords (items ! i)) (item_keywords (items ! j))) \<rparr>
         \<in> set deps)) \<and>
   (\<forall>p. run lower a sources = Done p \<longrightarrow>
      (\<exists>r. filter (\<lambda>f. fst f = js ''skills/routes.json'') (files p) =
             [(js ''skills/routes.json'', Json r)] \<and>
           map route_id (skills r) = map skill_id (skillItems p) \<and>
           map route_keywords (skills r) = map item_keywords (skillItems p) \<and>
           routes_dependencies r = buildDependencies (skillItems p) \<and>
           (let items = skillItems p; deps = routes_dependencies r in
            (\<forall>i j. i < length items \<and> j < length items \<and> i \<noteq> j \<longrightarrow>
               ((\<exists>e \<in> set deps. from_id e = skill_id (items ! i) \<and> to_id e = skill_id (items ! j)) \<longleftrightarrow>
                (\<exists>e \<in> set deps. from_id e = skill_id (items ! j) \<and> to_id e = skill_id (items ! i)))) \<and>
            (\<forall>e \<in> set deps. \<forall>e' \<in> set deps.
               from_id e' = to_id e \<and> to_id e' = from_id e \<longrightarrow> weight e' = weight e) \<and>
            (\<forall>i j. i < length items \<and> j < length items \<and> i \<noteq> j \<and>
               22 / 100 \<le> jaccardSpec (item_keywords (items ! i)) (item_keywords (items ! j)) \<longrightarrow>
               \<lparr> from_id = skill_id (items ! i), to_id = skill_id (items ! j),
                 weight = toFixed2 (jaccardSpec (item_keywords (items ! i)) (item_keywords (items ! j))) \<rparr>
                 \<in> set deps \<and>
               \<lparr> from_id = skill_id (items ! j), to_id = skill_id (items ! i),
                 weight = toFixed2 (jaccardSpec (item_keywords (items ! i)) (item_keywords (items ! j))) \<rparr>
                 \<in> set deps))))"
proof (rule conjI)
  show "let items = compileItems lower langMode chunks; deps = buildDependencies items in
    (\<forall>i j. i < length items \<and> j < length items \<and> i \<noteq> j \<longrightarrow>
       ((\<exists>e \<in> set deps. from_id e = skill_id (items ! i) \<and> to_id e = skill_id (items ! j)) \<longleftrightarrow>
        (\<exists>e \<in> set deps. from_id e = skill_id (items ! j) \<and> to_id e = skill_id (items ! i)))) \<and>
    (\<forall>e \<in> set deps. \<forall>e' \<in> set deps.
       from_id e' = to_id e \<and> to_id e' = from_id e \<longrightarrow> weight e' = weight e) \<and>
    (\<forall>i j. i < length items \<and> j < length items \<and> i \<noteq> j \<and>
       22 / 100 \<le> jaccardSpec (item_keywords (items ! i)) (item_keywords (items ! j)) \<longrightarrow>
       \<lparr> from_id = skill_id (items ! i), to_id = skill_id (items ! j),
         weight = toFixed2 (jaccardSpec (item_keywords (items ! i)) (item_keywords (items ! j))) \<rparr>
         \<in> set deps \<and>
       \<lparr> from_id = skill_id (items ! j), to_id = skill_id (items ! i),
         weight = toFixed2 (jaccardSpec (item_keywords (items ! i)) (item_keywords (items ! j))) \<rparr>
         \<in> set deps)"
    by (rule edges_symmetric)
next
  show "\<forall>p. run lower a sources = Done p \<longrightarrow>
      (\<exists>r. filter (\<lambda>f. fst f = js ''skills/routes.json'') (files p) =
             [(js ''skills/routes.json'', Json r)] \<and>
           map route_id (skills r) = map skill_id (skillItems p) \<and>
           map route_keywords (skills r) = map item_keywords (skillItems p) \<and>
           routes_dependencies r = buildDependencies (skillItems p) \<and>
           (let items = skillItems p; deps = routes_dependencies r in
            (\<forall>i j. i < length items \<and> j < length items \<and> i \<noteq> j \<longrightarrow>
               ((\<exists>e \<in> set deps. from_id e = skill_id (items ! i) \<and> to_id e = skill_id (items ! j)) \<longleftrightarrow>
                (\<exists>e \<in> set deps. from_id e = skill_id (items ! j) \<and> to_id e = skill_id (items ! i)))) \<and>
            (\<forall>e \<in> set deps. \<forall>e' \<in> set deps.
               from_id e' = to_id e \<and> to_id e' = from_id e \<longrightarrow> weight e' = weight e) \<and>
            (\<forall>i j. i < length items \<and> j < length items \<and> i \<noteq> j \<and>
               22 / 100 \<le> jaccardSpec (item_keywords (items ! i)) (item_keywords (items ! j)) \<longrightarrow>
               \<lparr> from_id = skill_id (items ! i), to_id = skill_id (items ! j),
                 weight = toFixed2 (jaccardSpec (item_keywords (items ! i)) (item_keywords (items ! j))) \<rparr>
                 \<in> set deps \<and>
               \<lparr> from_id = skill_id (items ! j), to_id = skill_id (items ! i),
                 weight = toFixed2 (jaccardSpec (item_keywords (items ! i)) (item_keywords (items ! j))) \<rparr>
                 \<in> set deps)))"
  proof (intro allI impI)
    fix p assume ends: "run lower a sources = Done p"
    from run_done[OF ends] obtain normalized cs where
      items: "skillItems p = compileItems lower (langModeOf (arg_lang a)) cs"
      and deps: "dependencies p = buildDependencies (skillItems p)"
      and fs: "files p = packFiles (slugify lower (arg_name a)) (langModeOf (arg_lang a))
                 (length sources) (arg_minScore a) normalized (skillItems p) (dependencies p)"
      by blast
    let ?r = "buildRoutesJson (skillItems p) (dependencies p) (arg_minScore a)"
    have f: "filter (\<lambda>f. fst f = js ''skills/routes.json'') (files p) =
        [(js ''skills/routes.json'', Json ?r)]"
      by (subst fs) (rule packFiles_routes_only)
    have ids: "map route_id (skills ?r) = map skill_id (skillItems p)"
      and kws: "map route_keywords (skills ?r) = map item_keywords (skillItems p)"
      by (simp_all add: buildRoutesJson_def comp_def)
    have rd: "routes_dependencies ?r = buildDependencies (skillItems p)"
      by (simp add: buildRoutesJson_def deps)
    have sym: "let items = skillItems p; deps = routes_dependencies ?r in
            (\<forall>i j. i < length items \<and> j < length items \<and> i \<noteq> j \<longrightarrow>
               ((\<exists>e \<in> set deps. from_id e = skill_id (items ! i) \<and> to_id e = skill_id (items ! j)) \<longleftrightarrow>
                (\<exists>e \<in> set deps. from_id e = skill_id (items ! j) \<and> to_id e = skill_id (items ! i)))) \<and>
            (\<forall>e \<in> set deps. \<forall>e' \<in> set deps.
               from_id e' = to_id e \<and> to_id e' = from_id e \<longrightarrow> weight e' = weight e) \<and>
            (\<forall>i j. i < length items \<and> j < length items \<and> i \<noteq> j \<and>
               22 / 100 \<le> jaccardSpec (item_keywords (items ! i)) (item_keywords (items ! j)) \<longrightarrow>
               \<lparr> from_id = skill_id (items ! i), to_id = skill_id (items ! j),
                 weight = toFixed2 (jaccardSpec (item_keywords (items ! i)) (item_keywords (items ! j))) \<rparr>
                 \<in> set deps \<and>
               \<lparr> from_id = skill_id (items ! j), to_id = skill_id (items ! i),
                 weight = toFixed2 (jaccardSpec (item_keywords (items ! i)) (item_keywords (items ! j))) \<rparr>
                 \<in> set deps)"
      unfolding Let_def rd unfolding items
      using edges_symmetric[of lower "langModeOf (arg_lang a)" cs] unfolding Let_def .
    from f ids kws rd sym show "\<exists>r. filter (\<lambda>f. fst f = js ''skills/routes.json'') (files p) =
             [(js ''skills/routes.json'', Json r)] \<and>
           map route_id (skills r) = map skill_id (skillItems p) \<and>
           map route_keywords (skills r) = map item_keywords (skillItems p) \<and>
           routes_dependencies r = buildDependencies (skillItems p) \<and>
           (let items = skillItems p; deps = routes_dependencies r in
            (\<forall>i j. i < length items \<and> j < length items \<and> i \<noteq> j \<longrightarrow>
               ((\<exists>e \<in> set deps. from_id e = skill_id (items ! i) \<and> to_id e = skill_id (items ! j)) \<longleftrightarrow>
                (\<exists>e \<in> set deps. from_id e = skill_id (items ! j) \<and> to_id e = skill_id (items ! i)))) \<and>
            (\<forall>e \<in> set deps. \<forall>e' \<in> set deps.
               from_id e' = to_id e \<and> to_id e' = from_id e \<longrightarrow> weight e' = weight e) \<and>
            (\<forall>i j. i < length items \<and> j < length items \<and> i \<noteq> j \<and>
               22 / 100 \<le> jaccardSpec (item_keywords (items ! i)) (item_keywords (items ! j)) \<longrightarrow>
               \<lparr> from_id = skill_id (items ! i), to_id = skill_id (items ! j),
                 weight = toFixed2 (jaccardSpec (item_keywords (items ! i)) (item_keywords (items ! j))) \<rparr>
                 \<in> set deps \<and>
               \<lparr> from_id = skill_id (items ! j), to_id = skill_id (items ! i),
                 weight = toFixed2 (jaccardSpec (item_keywords (items ! i)) (item_keywords (items ! j))) \<rparr>
                 \<in> set deps))"
      by (intro exI[of _ ?r] conjI)
  qed
qed

theorem dependency_symmetry_witness:
  "map_option routes_dependencies (routesOf (run asciiLower
      \<lparr> arg_name = js ''demo'', arg_maxChunks = Num 24, arg_minScore = Num 55, arg_lang = js ''auto'' \<rparr>
      [(js ''a.pdf'', join [SP] (replicate 140 (js ''valve'')) @ [NL, NL] @
                      join [SP] (replicate 10 (js ''valve pump'')))])) =
     Some [\<lparr> from_id = skillId 0, to_id = skillId 1, weight = 1 / 2 \<rparr>,
           \<lparr> from_id = skillId 1, to_id = skillId 0, weight = 1 / 2 \<rparr>] \<and>
   map_option (map item_keywords) (itemsOf (run asciiLower
      \<lparr> arg_name = js ''demo'', arg_maxChunks = Num 24, arg_minScore = Num 55, arg_lang = js ''auto'' \<rparr>
      [(js ''a.pdf'', join [SP] (replicate 140 (js ''valve'')) @ [NL, NL] @
                      join [SP] (replicate 10 (js ''valve pump'')))])) =
     Some [[js ''valve''], [js ''valve'', js ''pump'']] \<and>
   22 / 100 \<le> jaccardSpec [js ''valve''] [js ''valve'', js ''pump'']"
proof -
  let ?a = "\<lparr> arg_name = js ''demo'', arg_maxChunks = Num 24, arg_minScore = Num 55, arg_lang = js ''auto'' \<rparr>"
  let ?P = "join [SP] (replicate 140 (js ''valve''))"
  let ?Q = "join [SP] (replicate 10 (js ''valve pump''))"
  let ?src = "[(js ''a.pdf'', ?P @ [NL, NL] @ ?Q)]"
  let ?items = "compileItems asciiLower Auto [?P, ?Q]"
  have cap: "maxChunksOf (arg_maxChunks ?a) = 24" by (simp add: maxChunksOf_def)
  have lang: "langModeOf (arg_lang ?a) = Auto" by (simp add: langModeOf_def js_def)
  have nP: "nonSpaceLength ?P = 700" and nQ: "nonSpaceLength ?Q = 90" by code_simp+
  have wP: "wordCount ?P = 140" and wQ: "wordCount ?Q = 20" by code_simp+
  have t: "normalizeText (?P @ [NL, NL] @ ?Q) = ?P @ [NL, NL] @ ?Q" by code_simp
  have ne: "?P @ [NL, NL] @ ?Q \<noteq> []" by (simp add: js_def)
  have j: "join [NL, NL] (extractedTexts ?src) =
      js ''## Source: '' @ js ''a.pdf'' @ [NL, NL] @ ?P @ [NL, NL] @ ?Q"
    by (rule extracted_single[OF t ne])
  have b: "splitSemanticBlocks (normalizeText
      (js ''## Source: '' @ js ''a.pdf'' @ [NL, NL] @ ?P @ [NL, NL] @ ?Q)) = [?P, ?Q]" by code_simp
  from run_two_blocks[OF b _ _ cap, of asciiLower 1] obtain p where
    p: "run asciiLower ?a ?src = Done p"
    and items0: "skillItems p = compileItems asciiLower (langModeOf (arg_lang ?a))
         (filter (\<lambda>c. 80 < nonSpaceLength c) [?P, ?Q])"
    unfolding run_def j nP nQ wP wQ by auto
  have items: "skillItems p = ?items" unfolding items0 lang by (simp add: nP nQ)
  from dependency_symmetry[of asciiLower Auto "[]" ?a ?src] p obtain r where
    f: "filter (\<lambda>f. fst f = js ''skills/routes.json'') (files p) = [(js ''skills/routes.json'', Json r)]"
    and rd: "routes_dependencies r = buildDependencies (skillItems p)"
    by blast
  have n: "length ?items = 2" by (simp add: length_compileItems)
  have kw: "map item_keywords ?items = [[js ''valve''], [js ''valve'', js ''pump'']]"
    by (simp add: compileItems_def compileItem_fields routes_example_keywords)
  have k0: "item_keywords (?items ! 0) = [js ''valve'']"
    and k1: "item_keywords (?items ! 1) = [js ''valve'', js ''pump'']"
    and i0: "skill_id (?items ! 0) = skillId 0" and i1: "skill_id (?items ! 1) = skillId 1"
    by (simp_all add: compileItems_nth compileItem_fields routes_example_keywords)
  have up: "[0 ..< 2] = [0, Suc 0]" by (simp add: upt_rec)
  have "buildDependencies ?items = edgePairs ?items"
    by (rule buildDependencies_pairs) (rule compiled_ids)
  also have "\<dots> = [\<lparr> from_id = skillId 0, to_id = skillId 1, weight = 1 / 2 \<rparr>,
           \<lparr> from_id = skillId 1, to_id = skillId 0, weight = 1 / 2 \<rparr>]"
    unfolding edgePairs_def n up Let_def jaccard_spec
    using k0 k1 i0 i1 by (simp add: routes_example_similarity example_similarity)
  finally have deps: "routes_dependencies r =
      [\<lparr> from_id = skillId 0, to_id = skillId 1, weight = 1 / 2 \<rparr>,
       \<lparr> from_id = skillId 1, to_id = skillId 0, weight = 1 / 2 \<rparr>]"
    unfolding rd items .
  have big: "22 / 100 \<le> jaccardSpec [js ''valve''] [js ''valve'', js ''pump'']"
    by (simp add: routes_example_similarity)
  show ?thesis unfolding p using f deps kw big by (simp add: items)
qed

end
